theory Spec2Isabelle
  imports Complex_Main "HOL-Library.Product_Lexorder" "HOL-Library.List_Lexorder"
    "HOL-Library.Char_ord" "HOL-Library.Multiset"
begin

section \<open>Errors of the crawler, as values\<close>

text \<open>
  Every exception the modelled Python code raises is a constructor of this type; a
  function that can raise returns \<open>py_error + 'a\<close>, with \<open>Inl\<close> for the exception.
\<close>

datatype py_error =
    IndexError
  | KeyError
  | ValueError
  | AssertionError
  | AttributeError
  | RuntimeError
  | ZeroDivisionError
  | NotImplementedError
  | FileNotFoundError
  | OSError
  | BadGzipFile
  | UnicodeDecodeError

section \<open>Parser: \<open>clean_links\<close> (crawler/parser.py)\<close>

text \<open>
  A link entry is a JSON array whose element at \<open>URL_INDEX = 0\<close> is the URL; the other
  elements are ignored. \<open>link[URL_INDEX]\<close> raises IndexError on an empty entry. The loop
  appends to \<open>cleaned_links\<close>, which is the accumulator of \<open>clean_links_loop\<close>.
\<close>

type_synonym link = "string list"

fun clean_links_loop :: "link list \<Rightarrow> string \<Rightarrow> string list \<Rightarrow> py_error + string list" where
  "clean_links_loop [] url cleaned_links = Inr cleaned_links"
| "clean_links_loop (link # links) url cleaned_links =
     (case link of
        [] \<Rightarrow> Inl IndexError
      | link_url # _ \<Rightarrow>
          if link_url \<noteq> url \<and> link_url \<notin> set cleaned_links
          then clean_links_loop links url (cleaned_links @ [link_url])
          else clean_links_loop links url cleaned_links)"

definition clean_links :: "link list \<Rightarrow> string \<Rightarrow> py_error + string list" where
  "clean_links links url = clean_links_loop links url []"

text \<open>
  The specification's words, as a second definition: drop the self-links, then drop every
  repetition of a URL that was already seen, keeping the first occurrence.
\<close>

fun first_seen :: "'a list \<Rightarrow> 'a list \<Rightarrow> 'a list" where
  "first_seen seen [] = []"
| "first_seen seen (x # xs) =
     (if x \<in> set seen then first_seen seen xs else x # first_seen (x # seen) xs)"

definition spec_clean_links :: "string list \<Rightarrow> string \<Rightarrow> string list" where
  "spec_clean_links urls url = first_seen [] (filter (\<lambda>u. u \<noteq> url) urls)"

section \<open>Seen-set: the bit-array variant (crawler/seen.py)\<close>

text \<open>
  \<open>bitarray(capacity)\<close> followed by \<open>setall(0)\<close> is a list of \<open>capacity\<close> bits, all
  \<open>False\<close>; a negative capacity is refused by the bitarray constructor with ValueError.
  An operation that raises leaves the object as it was, so a raising operation returns
  the state it was given together with the error.
\<close>

record bit_array_seen =
  capacity :: int
  seen_urls :: "bool list"

definition bit_array_init :: "int \<Rightarrow> py_error + bit_array_seen" where
  "bit_array_init cap =
     (if cap < 0 then Inl ValueError
      else Inr \<lparr>capacity = cap, seen_urls = replicate (nat cap) False\<rparr>)"

definition is_seen :: "bit_array_seen \<Rightarrow> int \<Rightarrow> py_error + bool" where
  "is_seen t docid =
     (if docid \<ge> capacity t \<or> docid < 0 then Inl IndexError
      else Inr (seen_urls t ! nat docid))"

definition mark_seen :: "bit_array_seen \<Rightarrow> int \<Rightarrow> bit_array_seen \<times> (py_error + unit)" where
  "mark_seen t docid =
     (if docid \<ge> capacity t \<or> docid < 0 then (t, Inl IndexError)
      else (t\<lparr>seen_urls := (seen_urls t)[nat docid := True]\<rparr>, Inr ()))"

definition seen_count :: "bit_array_seen \<Rightarrow> nat" where
  "seen_count t = count_list (seen_urls t) True"

text \<open>The states the constructor and \<open>mark_seen\<close> produce: as many bits as the capacity.\<close>

definition bit_array_wf :: "bit_array_seen \<Rightarrow> bool" where
  "bit_array_wf t \<longleftrightarrow> 0 \<le> capacity t \<and> length (seen_urls t) = nat (capacity t)"

section \<open>Python's \<open>heapq\<close> on a list\<close>

text \<open>
  \<open>heapq\<close> keeps a binary min-heap in a list: the parent of index \<open>i\<close> is
  \<open>(i - 1) >> 1\<close>. \<open>_siftdown\<close> moves \<open>newitem\<close> towards the root, \<open>_siftup\<close>
  moves the smaller child up until a leaf and then sifts \<open>newitem\<close> down from there.
  \<open>queue.PriorityQueue\<close> stores its entries with the same \<open>heappush\<close> and \<open>heappop\<close>.
  The element order is the one of the elements' type: tuples compare lexicographically.
  Every index the functions read is in range in the calls below.
\<close>

function siftdown_loop :: "'e::linorder list \<Rightarrow> nat \<Rightarrow> nat \<Rightarrow> 'e \<Rightarrow> 'e list" where
  "siftdown_loop heap startpos pos newitem =
     (if pos > startpos then
        (if newitem < heap ! ((pos - 1) div 2)
         then siftdown_loop (heap[pos := heap ! ((pos - 1) div 2)]) startpos
                ((pos - 1) div 2) newitem
         else heap[pos := newitem])
      else heap[pos := newitem])"
  by pat_completeness auto
termination
  by (relation "measure (\<lambda>(heap, startpos, pos, newitem). pos)") auto

declare siftdown_loop.simps [simp del]

definition siftdown :: "'e::linorder list \<Rightarrow> nat \<Rightarrow> nat \<Rightarrow> 'e list" where
  "siftdown heap startpos pos = siftdown_loop heap startpos pos (heap ! pos)"

definition smaller_child :: "'e::linorder list \<Rightarrow> nat \<Rightarrow> nat \<Rightarrow> nat" where
  "smaller_child heap endpos childpos =
     (if childpos + 1 < endpos \<and> \<not> heap ! childpos < heap ! (childpos + 1)
      then childpos + 1 else childpos)"

function siftup_loop :: "'e::linorder list \<Rightarrow> nat \<Rightarrow> nat \<Rightarrow> 'e list \<times> nat" where
  "siftup_loop heap endpos pos =
     (if 2 * pos + 1 < endpos then
        siftup_loop (heap[pos := heap ! smaller_child heap endpos (2 * pos + 1)]) endpos
          (smaller_child heap endpos (2 * pos + 1))
      else (heap, pos))"
  by pat_completeness auto
termination
  by (relation "measure (\<lambda>(heap, endpos, pos). endpos - pos)")
     (auto simp: smaller_child_def)

declare siftup_loop.simps [simp del]

definition siftup :: "'e::linorder list \<Rightarrow> nat \<Rightarrow> 'e list" where
  "siftup heap pos =
     (case siftup_loop heap (length heap) pos of
        (heap', pos') \<Rightarrow> siftdown (heap'[pos' := heap ! pos]) pos pos')"

definition heappush :: "'e::linorder list \<Rightarrow> 'e \<Rightarrow> 'e list" where
  "heappush heap item = siftdown (heap @ [item]) 0 (length heap)"

definition heappop :: "'e::linorder list \<Rightarrow> ('e \<times> 'e list) option" where
  "heappop heap =
     (if heap = [] then None
      else if butlast heap \<noteq> []
        then Some (hd heap, siftup ((butlast heap)[0 := last heap]) 0)
        else Some (last heap, butlast heap))"

definition heapify :: "'e::linorder list \<Rightarrow> 'e list" where
  "heapify x = fold (\<lambda>i h. siftup h i) (rev [0 ..< length x div 2]) x"


lemma length_siftdown_loop [simp]:
  "length (siftdown_loop heap startpos pos newitem) = length heap"
  by (induction heap startpos pos newitem rule: siftdown_loop.induct)
     (subst siftdown_loop.simps, simp)

lemma length_siftdown [simp]: "length (siftdown heap startpos pos) = length heap"
  by (simp add: siftdown_def)

lemma length_siftup_loop [simp]:
  "length (fst (siftup_loop heap endpos pos)) = length heap"
  by (induction heap endpos pos rule: siftup_loop.induct)
     (subst siftup_loop.simps, simp)

lemma length_siftup [simp]: "length (siftup heap pos) = length heap"
  using length_siftup_loop [of heap "length heap" pos]
  by (cases "siftup_loop heap (length heap) pos") (simp add: siftup_def)

lemma length_heappush [simp]: "length (heappush heap item) = Suc (length heap)"
  by (simp add: heappush_def)

lemma length_heappop: "heappop heap = Some (x, rest) \<Longrightarrow> Suc (length rest) = length heap"
  by (cases heap rule: rev_cases) (auto simp: heappop_def split: if_splits)

section \<open>The priority queues (utils/priorityqueue.py)\<close>

text \<open>
  Priorities are Python numbers that the code only negates and compares; they are modelled
  as reals. Items are URLs. An entry of the queue is the tuple (internal priority, item).
\<close>

subsection \<open>PQueueHeap\<close>

type_synonym pq_entry = "real \<times> string"

definition internal_priority :: "real \<Rightarrow> real" where
  "internal_priority priority = - priority"

definition external_priority :: "real \<Rightarrow> real" where
  "external_priority priority = - priority"

record pqueue_heap =
  hq_queue :: "pq_entry list"

definition heap_init :: pqueue_heap where
  "heap_init = \<lparr>hq_queue = []\<rparr>"

definition heap_put :: "pqueue_heap \<Rightarrow> string \<Rightarrow> real \<Rightarrow> pqueue_heap" where
  "heap_put q item priority =
     q\<lparr>hq_queue := heappush (hq_queue q) (internal_priority priority, item)\<rparr>"

definition heap_update :: "pqueue_heap \<Rightarrow> string \<Rightarrow> real \<Rightarrow> pqueue_heap" where
  "heap_update q item priority =
     (case find (\<lambda>i. snd (hq_queue q ! i) = item) [0 ..< length (hq_queue q)] of
        None \<Rightarrow> q
      | Some i \<Rightarrow>
          if external_priority (fst (hq_queue q ! i)) < priority
          then q\<lparr>hq_queue := heapify ((hq_queue q)[i := (internal_priority priority, item)])\<rparr>
          else q)"

definition heap_get :: "pqueue_heap \<Rightarrow> py_error + ((string \<times> real) \<times> pqueue_heap)" where
  "heap_get q =
     (case heappop (hq_queue q) of
        None \<Rightarrow> Inl KeyError
      | Some (item, rest) \<Rightarrow> Inr ((snd item, fst item), q\<lparr>hq_queue := rest\<rparr>))"

definition heap_enqueued :: "pqueue_heap \<Rightarrow> int" where
  "heap_enqueued q = int (length (hq_queue q))"

subsection \<open>PQueuePriorityQueue\<close>

record pqueue_pq =
  pq_queue :: "pq_entry list"
  pq_deleted :: "string \<rightharpoonup> real \<times> int"
  pq_num_enqueued :: int
  pq_num_deleted :: int

definition MAX_DELETED_THRESHOLD :: int where
  "MAX_DELETED_THRESHOLD = 10000000"

definition pq_init :: pqueue_pq where
  "pq_init = \<lparr>pq_queue = [], pq_deleted = Map.empty, pq_num_enqueued = 0, pq_num_deleted = 0\<rparr>"

definition pq_put :: "pqueue_pq \<Rightarrow> string \<Rightarrow> real \<Rightarrow> py_error + pqueue_pq" where
  "pq_put s item priority =
     (if pq_deleted s item \<noteq> None then Inl AssertionError
      else Inr (s\<lparr>pq_queue := heappush (pq_queue s) (internal_priority priority, item),
                  pq_deleted := (pq_deleted s)(item \<mapsto> (internal_priority priority, 0)),
                  pq_num_enqueued := pq_num_enqueued s + 1\<rparr>))"

definition mark_deleted :: "pqueue_pq \<Rightarrow> string \<Rightarrow> real \<Rightarrow> py_error + pqueue_pq" where
  "mark_deleted s item priority =
     (case pq_deleted s item of
        None \<Rightarrow> Inl AttributeError
      | Some (old_priority, old_count) \<Rightarrow>
          if priority \<ge> external_priority old_priority then Inr s
          else Inr (s\<lparr>pq_deleted := (pq_deleted s)(item \<mapsto> (internal_priority priority, old_count + 1)),
                      pq_num_deleted := pq_num_deleted s + 1\<rparr>))"

function pq_get :: "pqueue_pq \<Rightarrow> py_error + ((string \<times> real) \<times> pqueue_pq)" where
  "pq_get s =
     (case heappop (pq_queue s) of
        None \<Rightarrow> Inl KeyError
      | Some ((internal, item), rest) \<Rightarrow>
          (case pq_deleted s item of
             None \<Rightarrow> Inl AttributeError
           | Some (min_del_internal, del_count) \<Rightarrow>
               (let priority = external_priority internal;
                    min_del_priority = external_priority min_del_internal;
                    deleted' = (if del_count - 1 < 0 then (pq_deleted s)(item := None)
                                else (pq_deleted s)(item \<mapsto>
                                       (internal_priority min_del_priority, del_count - 1)))
                in if priority > min_del_priority
                   then pq_get (s\<lparr>pq_queue := rest, pq_deleted := deleted',
                                    pq_num_deleted := pq_num_deleted s - 1\<rparr>)
                   else Inr ((item, priority),
                             s\<lparr>pq_queue := rest, pq_deleted := deleted',
                               pq_num_enqueued := pq_num_enqueued s - 1\<rparr>))))"
  by pat_completeness auto
termination
  by (relation "measure (\<lambda>s. length (pq_queue s))") (auto dest: length_heappop)

declare pq_get.simps [simp del]

lemma pq_get_shorter:
  "pq_get s = Inr (r, s') \<Longrightarrow> length (pq_queue s') < length (pq_queue s)"
proof (induction s arbitrary: r s' rule: pq_get.induct)
  case (1 s)
  from "1.prems" obtain internal item rest where
    pop: "heappop (pq_queue s) = Some ((internal, item), rest)"
    by (subst (asm) pq_get.simps) (auto split: option.splits)
  from "1.prems" pop obtain mdi dc where del: "pq_deleted s item = Some (mdi, dc)"
    by (subst (asm) pq_get.simps) (auto split: option.splits)
  have len: "Suc (length rest) = length (pq_queue s)"
    using pop by (rule length_heappop)
  show ?case
  proof (cases "external_priority internal > external_priority mdi")
    case True
    let ?s1 = "s\<lparr>pq_queue := rest,
        pq_deleted := (if dc - 1 < 0 then (pq_deleted s)(item := None)
                       else (pq_deleted s)(item \<mapsto>
                              (internal_priority (external_priority mdi), dc - 1))),
        pq_num_deleted := pq_num_deleted s - 1\<rparr>"
    have "pq_get s = pq_get ?s1"
      using pop del True by (subst pq_get.simps) (simp add: Let_def)
    then have "pq_get ?s1 = Inr (r, s')" using "1.prems" by simp
    then have "length (pq_queue s') < length (pq_queue ?s1)"
      using "1.IH" [OF pop refl refl del refl refl refl refl True] by simp
    then show ?thesis using len by simp
  next
    case False
    then show ?thesis
      using "1.prems" pop del len
      by (subst (asm) pq_get.simps) (auto simp: Let_def)
  qed
qed

function cleanup_loop ::
  "pqueue_pq \<Rightarrow> pq_entry list \<Rightarrow> (string \<rightharpoonup> real \<times> int) \<Rightarrow>
   py_error + (pqueue_pq \<times> pq_entry list \<times> (string \<rightharpoonup> real \<times> int))" where
  "cleanup_loop s new_queue new_deleted =
     (if pq_queue s = [] then Inr (s, new_queue, new_deleted)
      else (case pq_get s of
              Inl e \<Rightarrow> Inl e
            | Inr ((item, priority), s') \<Rightarrow>
                cleanup_loop s' (heappush new_queue (internal_priority priority, item))
                  (new_deleted(item \<mapsto> (internal_priority priority, 0)))))"
  by pat_completeness auto
termination
  by (relation "measure (\<lambda>(s, q, d). length (pq_queue s))") (auto dest: pq_get_shorter)

declare cleanup_loop.simps [simp del]

definition cleanup_deleted :: "pqueue_pq \<Rightarrow> py_error + pqueue_pq" where
  "cleanup_deleted s =
     (case cleanup_loop s [] Map.empty of
        Inl e \<Rightarrow> Inl e
      | Inr (s', new_queue, new_deleted) \<Rightarrow>
          Inr (s'\<lparr>pq_queue := new_queue, pq_num_deleted := 0,
                  pq_num_enqueued := pq_num_enqueued s, pq_deleted := new_deleted\<rparr>))"

definition pq_update :: "pqueue_pq \<Rightarrow> string \<Rightarrow> real \<Rightarrow> py_error + (bool \<times> pqueue_pq)" where
  "pq_update s item priority =
     (case pq_deleted s item of
        None \<Rightarrow> Inr (False, s)
      | Some (old_priority, old_count) \<Rightarrow>
          (case (if external_priority old_priority > priority
                 then (case mark_deleted s item priority of
                         Inl e \<Rightarrow> Inl e
                       | Inr s1 \<Rightarrow> Inr (s1\<lparr>pq_queue :=
                             heappush (pq_queue s1) (internal_priority priority, item)\<rparr>))
                 else Inr s) of
             Inl e \<Rightarrow> Inl e
           | Inr s2 \<Rightarrow>
               if pq_num_deleted s2 > MAX_DELETED_THRESHOLD
               then (case cleanup_deleted s2 of Inl e \<Rightarrow> Inl e | Inr s3 \<Rightarrow> Inr (True, s3))
               else Inr (True, s2)))"

definition pq_enqueued :: "pqueue_pq \<Rightarrow> int" where
  "pq_enqueued s = pq_num_enqueued s"


section \<open>Pages and frontier managers (crawler/webpage.py, crawler/frontier.py)\<close>

subsection \<open>WebPage\<close>

record web_page =
  page_id :: "string option"
  page_url :: string
  page_docno :: "int option"
  page_metadata :: "(string \<rightharpoonup> real) option"

definition get_metadata :: "web_page \<Rightarrow> string \<Rightarrow> py_error + real option" where
  "get_metadata page key =
     (case page_metadata page of None \<Rightarrow> Inl ValueError | Some m \<Rightarrow> Inr (m key))"

subsection \<open>QualityFrontierManager\<close>

datatype quality_queue = HeapQ pqueue_heap | UpdatingQ pqueue_pq

record quality_frontier =
  qf_queue :: quality_queue
  qf_oracle :: bool
  no_priority_pages :: int
  priority_pages :: int
  no_father_pages :: int

definition MAX_PRIORITY :: real where
  "MAX_PRIORITY = 1"

definition MIN_PRIORITY :: real where
  "MIN_PRIORITY = - 50"

definition quality_init :: "bool \<Rightarrow> bool \<Rightarrow> py_error + quality_frontier" where
  "quality_init updates oracle =
     (if oracle
      then Inr \<lparr>qf_queue = (if updates then UpdatingQ pq_init else HeapQ heap_init),
                qf_oracle = oracle, no_priority_pages = 0, priority_pages = 0,
                no_father_pages = 0\<rparr>
      else Inl NotImplementedError)"

fun queue_put :: "quality_queue \<Rightarrow> string \<Rightarrow> real \<Rightarrow> py_error + quality_queue" where
  "queue_put (HeapQ q) item priority = Inr (HeapQ (heap_put q item priority))"
| "queue_put (UpdatingQ s) item priority = map_sum id UpdatingQ (pq_put s item priority)"

fun queue_get :: "quality_queue \<Rightarrow> py_error + ((string \<times> real) \<times> quality_queue)" where
  "queue_get (HeapQ q) = map_sum id (map_prod id HeapQ) (heap_get q)"
| "queue_get (UpdatingQ s) = map_sum id (map_prod id UpdatingQ) (pq_get s)"

fun queue_update ::
  "quality_queue \<Rightarrow> string \<Rightarrow> real \<Rightarrow> py_error + (bool option \<times> quality_queue)" where
  "queue_update (HeapQ q) item priority = Inr (None, HeapQ (heap_update q item priority))"
| "queue_update (UpdatingQ s) item priority =
     map_sum id (map_prod Some UpdatingQ) (pq_update s item priority)"

fun queue_enqueued :: "quality_queue \<Rightarrow> int" where
  "queue_enqueued (HeapQ q) = heap_enqueued q"
| "queue_enqueued (UpdatingQ s) = pq_enqueued s"

definition quality_pop :: "quality_frontier \<Rightarrow> py_error + (string \<times> quality_frontier)" where
  "quality_pop fm =
     (if queue_enqueued (qf_queue fm) = 0 then Inl IndexError
      else (case queue_get (qf_queue fm) of
              Inl e \<Rightarrow> Inl e
            | Inr ((url, priority), q') \<Rightarrow> Inr (url, fm\<lparr>qf_queue := q'\<rparr>)))"

definition quality_add_with_max_priority ::
  "quality_frontier \<Rightarrow> string \<Rightarrow> int \<Rightarrow> py_error + quality_frontier" where
  "quality_add_with_max_priority fm url docid =
     (case queue_put (qf_queue fm) url MAX_PRIORITY of
        Inl e \<Rightarrow> Inl e
      | Inr q' \<Rightarrow> Inr (fm\<lparr>qf_queue := q'\<rparr>))"

definition quality_add ::
  "quality_frontier \<Rightarrow> web_page \<Rightarrow> web_page option \<Rightarrow> py_error + quality_frontier" where
  "quality_add fm page father =
     (case father of
        None \<Rightarrow>
          (case quality_add_with_max_priority fm (page_url page) (- 1) of
             Inl e \<Rightarrow> Inl e
           | Inr fm' \<Rightarrow> Inr (fm'\<lparr>no_father_pages := no_father_pages fm' + 1,
                                  priority_pages := priority_pages fm' + 1\<rparr>))
      | Some f \<Rightarrow>
          if qf_oracle fm then
            (case get_metadata page ''qscore'' of
               Inl e \<Rightarrow> Inl e
             | Inr None \<Rightarrow>
                 (case queue_put (qf_queue fm) (page_url page) MIN_PRIORITY of
                    Inl e \<Rightarrow> Inl e
                  | Inr q' \<Rightarrow> Inr (fm\<lparr>no_priority_pages := no_priority_pages fm + 1,
                                       qf_queue := q'\<rparr>))
             | Inr (Some priority) \<Rightarrow>
                 (case queue_put (qf_queue fm) (page_url page) priority of
                    Inl e \<Rightarrow> Inl e
                  | Inr q' \<Rightarrow> Inr (fm\<lparr>priority_pages := priority_pages fm + 1,
                                       qf_queue := q'\<rparr>)))
          else Inl ValueError)"

definition quality_update ::
  "quality_frontier \<Rightarrow> web_page \<Rightarrow> web_page option \<Rightarrow>
   py_error + (bool option \<times> quality_frontier)" where
  "quality_update fm page father =
     (case (if qf_oracle fm then get_metadata page ''qscore''
            else (case father of None \<Rightarrow> Inl AttributeError
                  | Some f \<Rightarrow> get_metadata f ''qscore'')) of
        Inl e \<Rightarrow> Inl e
      | Inr p \<Rightarrow>
          (case queue_update (qf_queue fm) (page_url page)
                  (case p of None \<Rightarrow> MIN_PRIORITY | Some priority \<Rightarrow> priority) of
             Inl e \<Rightarrow> Inl e
           | Inr (res, q') \<Rightarrow> Inr (res, fm\<lparr>qf_queue := q'\<rparr>)))"

definition quality_enqueued :: "quality_frontier \<Rightarrow> int" where
  "quality_enqueued fm = queue_enqueued (qf_queue fm)"

subsection \<open>Random, BFS and DFS frontier managers\<close>

definition random_pop :: "string list \<Rightarrow> nat \<Rightarrow> py_error + (string \<times> string list)" where
  "random_pop queue r =
     (if length queue = 0 then Inl IndexError
      else (let random_index = r mod length queue;
                swapped = queue[random_index := last queue,
                                length queue - 1 := queue ! random_index]
            in Inr (last swapped, butlast swapped)))"

definition bfs_pop :: "string list \<Rightarrow> py_error + (string \<times> string list)" where
  "bfs_pop queue = (if length queue = 0 then Inl IndexError else Inr (hd queue, tl queue))"

definition dfs_pop :: "string list \<Rightarrow> py_error + (string \<times> string list)" where
  "dfs_pop queue = (if length queue = 0 then Inl IndexError else Inr (last queue, butlast queue))"

datatype frontier =
    RandomF "string list"
  | QualityF quality_frontier
  | BfsF "string list"
  | DfsF "string list"

definition init_frontier_manager :: "string \<Rightarrow> bool \<Rightarrow> py_error + frontier" where
  "init_frontier_manager frontier_type updates =
     (if frontier_type = ''random'' then Inr (RandomF [])
      else if frontier_type = ''oracle-quality''
        then map_sum id QualityF (quality_init updates True)
      else if frontier_type = ''bfs'' then Inr (BfsF [])
      else if frontier_type = ''dfs'' then Inr (DfsF [])
      else Inl ValueError)"

fun frontier_add :: "frontier \<Rightarrow> web_page \<Rightarrow> web_page option \<Rightarrow> py_error + frontier" where
  "frontier_add (RandomF q) page father = Inr (RandomF (q @ [page_url page]))"
| "frontier_add (QualityF fm) page father = map_sum id QualityF (quality_add fm page father)"
| "frontier_add (BfsF q) page father = Inr (BfsF (q @ [page_url page]))"
| "frontier_add (DfsF q) page father = Inr (DfsF (q @ [page_url page]))"

fun frontier_add_with_max_priority :: "frontier \<Rightarrow> string \<Rightarrow> int \<Rightarrow> py_error + frontier" where
  "frontier_add_with_max_priority (RandomF q) url docid = Inr (RandomF (q @ [url]))"
| "frontier_add_with_max_priority (QualityF fm) url docid =
     map_sum id QualityF (quality_add_with_max_priority fm url docid)"
| "frontier_add_with_max_priority (BfsF q) url docid = Inr (BfsF (q @ [url]))"
| "frontier_add_with_max_priority (DfsF q) url docid = Inr (DfsF (q @ [url]))"

fun frontier_update ::
  "frontier \<Rightarrow> web_page \<Rightarrow> web_page option \<Rightarrow> py_error + (bool option \<times> frontier)" where
  "frontier_update (RandomF q) page father = Inr (None, RandomF q)"
| "frontier_update (QualityF fm) page father =
     map_sum id (map_prod id QualityF) (quality_update fm page father)"
| "frontier_update (BfsF q) page father = Inr (None, BfsF q)"
| "frontier_update (DfsF q) page father = Inr (None, DfsF q)"

fun frontier_pop :: "frontier \<Rightarrow> nat \<Rightarrow> py_error + (string \<times> frontier)" where
  "frontier_pop (RandomF q) r = map_sum id (map_prod id RandomF) (random_pop q r)"
| "frontier_pop (QualityF fm) r = map_sum id (map_prod id QualityF) (quality_pop fm)"
| "frontier_pop (BfsF q) r = map_sum id (map_prod id BfsF) (bfs_pop q)"
| "frontier_pop (DfsF q) r = map_sum id (map_prod id DfsF) (dfs_pop q)"

fun enqueued :: "frontier \<Rightarrow> int" where
  "enqueued (RandomF q) = int (length q)"
| "enqueued (QualityF fm) = quality_enqueued fm"
| "enqueued (BfsF q) = int (length q)"
| "enqueued (DfsF q) = int (length q)"

text \<open>The heap property of a list, as \<open>heapq\<close> maintains it.\<close>

definition is_heap :: "'e::linorder list \<Rightarrow> bool" where
  "is_heap h \<longleftrightarrow> list_all (\<lambda>i. h ! ((i - 1) div 2) \<le> h ! i) [1 ..< length h]"


text \<open>
  For \<open>heapify\<close>: the heap property restricted to the parents from index \<open>k\<close> on, and
  the positions below \<open>k\<close> in the tree (\<open>k\<close> itself and the children of such positions).
\<close>

definition heap_from :: "nat \<Rightarrow> 'e::linorder list \<Rightarrow> bool" where
  "heap_from k h \<longleftrightarrow>
     (\<forall>i. 0 < i \<and> i < length h \<and> k \<le> (i - 1) div 2 \<longrightarrow> h ! ((i - 1) div 2) \<le> h ! i)"

inductive anc :: "nat \<Rightarrow> nat \<Rightarrow> bool" where
  anc_self: "anc k k"
| anc_left: "anc k m \<Longrightarrow> anc k (2 * m + 1)"
| anc_right: "anc k m \<Longrightarrow> anc k (2 * m + 2)"

subsection \<open>The orchestrator's seeding step in oracle mode (crawler/orchestrator.py)\<close>

text \<open>
  In oracle mode \<open>populate_frontier\<close> builds the seed's page, attaches the pre-parsed
  qscore to its metadata when there is one, and calls \<open>add(page, None)\<close>.
\<close>

definition populate_frontier_oracle_seed ::
  "quality_frontier \<Rightarrow> string \<Rightarrow> int \<Rightarrow> string option \<Rightarrow> real option \<Rightarrow>
   py_error + quality_frontier" where
  "populate_frontier_oracle_seed fm seed_url docid url2id qscore =
     quality_add fm
       \<lparr>page_id = url2id, page_url = seed_url, page_docno = Some docid,
        page_metadata = Some (case qscore of None \<Rightarrow> Map.empty
                              | Some q \<Rightarrow> [''qscore'' \<mapsto> q])\<rparr>
       None"

subsection \<open>Sequences of frontier operations\<close>

text \<open>
  A caller's sequence of calls on a frontier. \<open>Pop\<close> carries the value the random
  generator yields for that call, which only the random frontier reads. A sequence runs
  until its first exception.
\<close>

datatype frontier_op =
    Add web_page "web_page option"
  | AddSeed string int
  | Update web_page "web_page option"
  | Pop nat

fun frontier_step :: "frontier \<Rightarrow> frontier_op \<Rightarrow> py_error + frontier" where
  "frontier_step f (Add page father) = frontier_add f page father"
| "frontier_step f (AddSeed url docid) = frontier_add_with_max_priority f url docid"
| "frontier_step f (Update page father) = map_sum id snd (frontier_update f page father)"
| "frontier_step f (Pop r) = map_sum id snd (frontier_pop f r)"

fun run_ops :: "frontier \<Rightarrow> frontier_op list \<Rightarrow> py_error + frontier" where
  "run_ops f [] = Inr f"
| "run_ops f (op # ops) =
     (case frontier_step f op of Inl e \<Rightarrow> Inl e | Inr f' \<Rightarrow> run_ops f' ops)"

fun added_urls :: "frontier_op list \<Rightarrow> string list" where
  "added_urls [] = []"
| "added_urls (Add page father # ops) = page_url page # added_urls ops"
| "added_urls (AddSeed url docid # ops) = url # added_urls ops"
| "added_urls (op # ops) = added_urls ops"

fun num_popped :: "frontier_op list \<Rightarrow> nat" where
  "num_popped [] = 0"
| "num_popped (Pop r # ops) = Suc (num_popped ops)"
| "num_popped (op # ops) = num_popped ops"

fun size_change :: "frontier_op \<Rightarrow> int" where
  "size_change (Add page father) = 1"
| "size_change (AddSeed url docid) = 1"
| "size_change (Update page father) = 0"
| "size_change (Pop r) = - 1"

subsection \<open>Popping a quality frontier until it is empty\<close>

text \<open>
  The crawl loop pops the frontier until \<open>pop\<close> raises \<open>IndexError\<close>; \<open>quality_drain\<close> is
  the list of URLs returned on the way. Every successful pop shortens the queue, so the
  loop ends.
\<close>

lemma map_sum_id_Inr: "map_sum id g x = Inr y \<longleftrightarrow> (\<exists>z. x = Inr z \<and> y = g z)"
  by (cases x) auto

fun queue_length :: "quality_queue \<Rightarrow> nat" where
  "queue_length (HeapQ q) = length (hq_queue q)"
| "queue_length (UpdatingQ s) = length (pq_queue s)"

lemma quality_pop_shorter:
  "quality_pop fm = Inr (url, fm') \<Longrightarrow>
   queue_length (qf_queue fm') < queue_length (qf_queue fm)"
proof -
  assume a: "quality_pop fm = Inr (url, fm')"
  then obtain r q' where g: "queue_get (qf_queue fm) = Inr (r, q')" and q': "qf_queue fm' = q'"
    by (auto simp: quality_pop_def split: if_splits sum.splits prod.splits)
  show ?thesis
  proof (cases "qf_queue fm")
    case (HeapQ h)
    then show ?thesis using g q'
      by (auto simp: map_sum_id_Inr heap_get_def split: option.splits prod.splits
          dest!: length_heappop)
  next
    case (UpdatingQ s)
    then show ?thesis using g q'
      by (auto simp: map_sum_id_Inr dest!: pq_get_shorter)
  qed
qed

function quality_drain :: "quality_frontier \<Rightarrow> string list" where
  "quality_drain fm =
     (case quality_pop fm of
        Inl e \<Rightarrow> []
      | Inr (url, fm') \<Rightarrow> url # quality_drain fm')"
  by pat_completeness auto
termination
  by (relation "measure (\<lambda>fm. queue_length (qf_queue fm))") (auto dest: quality_pop_shorter)

declare quality_drain.simps [simp del]

text \<open>
  The priority that the specification gives to \<open>add(page, father)\<close>: \<open>MAX_PRIORITY\<close> for a
  seed (no father), otherwise the page's \<open>qscore\<close>, or \<open>MIN_PRIORITY\<close> when it is missing. It
  is compared with what \<open>quality_add\<close> enqueues in \<open>quality_add_heap\<close>.
\<close>

definition spec_priority :: "web_page \<Rightarrow> web_page option \<Rightarrow> real" where
  "spec_priority page father =
     (case father of
        None \<Rightarrow> MAX_PRIORITY
      | Some f \<Rightarrow>
          (case page_metadata page of
             None \<Rightarrow> MIN_PRIORITY
           | Some m \<Rightarrow> (case m ''qscore'' of None \<Rightarrow> MIN_PRIORITY | Some p \<Rightarrow> p)))"

subsection \<open>The download log (crawler/fetcher.py, utils/datasetIR.py)\<close>

text \<open>
  The fetcher keeps the docnos of the downloaded pages in a buffer, \<open>downloaded\<close>, and the
  number of docnos already written in \<open>num_stored\<close>. The chunk files \<open>PATH_<k>.npy\<close> of the
  download directory are an association list from the numeric suffix \<open>k\<close> to the stored
  list; \<open>np.save\<close> on an existing path replaces the file, which \<open>map_of\<close> reads as the
  newest entry. \<open>store\<close> receives the docno that \<open>url2docno\<close> gave for the page's URL.
  \<open>int(x / n)\<close> on non-negative integers is the integer quotient (for totals below
  \<open>2 ^ 53\<close>, where the float division is exact enough), and raises \<open>ZeroDivisionError\<close>
  when \<open>n = 0\<close>.
\<close>

record fetcher =
  downloaded :: "int list"
  num_stored :: nat
  chunk_files :: "(nat \<times> int list) list"

definition fetcher_init :: fetcher where
  "fetcher_init = \<lparr>downloaded = [], num_stored = 0, chunk_files = []\<rparr>"

definition store :: "fetcher \<Rightarrow> int \<Rightarrow> fetcher" where
  "store f docno = f\<lparr>downloaded := downloaded f @ [docno]\<rparr>"

definition num_dowloaded :: "fetcher \<Rightarrow> nat" where
  "num_dowloaded f = length (downloaded f) + num_stored f"

definition write_downloads_to_file :: "nat \<Rightarrow> fetcher \<Rightarrow> bool \<Rightarrow> py_error + fetcher" where
  "write_downloads_to_file SAVE_EVERY_N_PAGES f is_last =
     (if SAVE_EVERY_N_PAGES = 0 then Inl ZeroDivisionError
      else
        let checkpoint_id =
              (length (downloaded f) + num_stored f) div SAVE_EVERY_N_PAGES
              + (if is_last then 1 else 0)
        in Inr (f\<lparr>chunk_files := (checkpoint_id, downloaded f) # chunk_files f\<rparr>))"

definition checkpoint :: "nat \<Rightarrow> fetcher \<Rightarrow> py_error + fetcher" where
  "checkpoint SAVE_EVERY_N_PAGES f =
     (case write_downloads_to_file SAVE_EVERY_N_PAGES f False of
        Inl e \<Rightarrow> Inl e
      | Inr f' \<Rightarrow> Inr (f'\<lparr>num_stored := num_stored f' + length (downloaded f'),
                           downloaded := []\<rparr>))"

text \<open>
  The reader, \<open>load_downloaded_list\<close>: from suffix 1 upwards, it returns at the first
  missing file, and stops once a non-zero \<open>limit\<close> is reached, truncating to it. Each
  round with an existing file moves past one suffix of the finite directory.
\<close>

lemma map_of_key_le_Max:
  "map_of fs k = Some v \<Longrightarrow> k \<le> Max (insert 0 (fst ` set fs))"
proof -
  assume "map_of fs k = Some v"
  then have "(k, v) \<in> set fs" by (rule map_of_SomeD)
  then have "k \<in> fst ` set fs" by force
  then show ?thesis by (intro Max_ge) auto
qed

function load_loop ::
  "(nat \<times> int list) list \<Rightarrow> nat option \<Rightarrow> nat \<Rightarrow> int list \<Rightarrow> int list" where
  "load_loop fs limit chunk_idx downloaded_docnos =
     (case map_of fs chunk_idx of
        None \<Rightarrow> downloaded_docnos
      | Some chunk \<Rightarrow>
          (let docnos = downloaded_docnos @ chunk in
           if (case limit of None \<Rightarrow> False | Some l \<Rightarrow> l \<noteq> 0 \<and> l \<le> length docnos)
           then take (the limit) docnos
           else load_loop fs limit (chunk_idx + 1) docnos))"
  by pat_completeness auto
termination
  by (relation "measure (\<lambda>(fs, limit, chunk_idx, acc).
        Suc (Max (insert 0 (fst ` set fs))) - chunk_idx)")
     (auto dest!: map_of_key_le_Max)

declare load_loop.simps [simp del]

definition load_downloaded_list :: "(nat \<times> int list) list \<Rightarrow> nat option \<Rightarrow> int list" where
  "load_downloaded_list fs limit = load_loop fs limit 1 []"

text \<open>
  The crawl loop of the orchestrator, as far as the download log sees it: \<open>docnos\<close> are the
  docnos of the pages that are downloaded, in pop order, until the frontier is empty or
  \<open>max_pages\<close> is reached. \<open>processed_pages\<close> is read at the top of the round, before the
  page is stored; the loop checkpoints after the page is processed when
  \<open>processed_pages % save_every_n_pages == 0 and processed_pages > 1\<close>. After the loop comes
  the final \<open>write_downloads_to_file(last=True)\<close>. \<open>save_every_n_pages\<close> is the
  orchestrator's attribute, \<open>SAVE_EVERY_N_PAGES\<close> the constant of the fetcher's module; both
  come from the same configuration entry.
\<close>

fun crawl_loop :: "nat \<Rightarrow> nat \<Rightarrow> fetcher \<Rightarrow> int list \<Rightarrow> py_error + fetcher" where
  "crawl_loop save_every_n_pages SAVE_EVERY_N_PAGES f [] = Inr f"
| "crawl_loop save_every_n_pages SAVE_EVERY_N_PAGES f (docno # docnos) =
     (let processed_pages = num_dowloaded f;
          f1 = store f docno
      in if save_every_n_pages = 0 then Inl ZeroDivisionError
         else if processed_pages mod save_every_n_pages = 0 \<and> processed_pages > 1
         then (case checkpoint SAVE_EVERY_N_PAGES f1 of
                 Inl e \<Rightarrow> Inl e
               | Inr f2 \<Rightarrow> crawl_loop save_every_n_pages SAVE_EVERY_N_PAGES f2 docnos)
         else crawl_loop save_every_n_pages SAVE_EVERY_N_PAGES f1 docnos)"

definition crawl :: "nat \<Rightarrow> nat \<Rightarrow> int list \<Rightarrow> py_error + fetcher" where
  "crawl save_every_n_pages SAVE_EVERY_N_PAGES docnos =
     (case crawl_loop save_every_n_pages SAVE_EVERY_N_PAGES fetcher_init docnos of
        Inl e \<Rightarrow> Inl e
      | Inr f \<Rightarrow> write_downloads_to_file SAVE_EVERY_N_PAGES f True)"

subsection \<open>The shard reader (utils/utils.py)\<close>












section \<open>Properties of \<open>clean_links\<close>\<close>

lemma first_seen_cong:
  "set s = set t \<Longrightarrow> first_seen s xs = first_seen t xs"
proof (induction xs arbitrary: s t)
  case Nil
  show ?case by simp
next
  case (Cons x xs)
  have mem: "x \<in> set s \<longleftrightarrow> x \<in> set t"
    using Cons.prems by simp
  have "set (x # s) = set (x # t)"
    using Cons.prems by simp
  then have step: "first_seen (x # s) xs = first_seen (x # t) xs"
    by (rule Cons.IH)
  have same: "first_seen s xs = first_seen t xs"
    using Cons.prems by (rule Cons.IH)
  show ?case
    unfolding first_seen.simps mem step same ..
qed

lemma clean_links_loop_spec:
  "\<forall>l \<in> set links. l \<noteq> [] \<Longrightarrow>
   clean_links_loop links url acc =
     Inr (acc @ first_seen acc (filter (\<lambda>u. u \<noteq> url) (map hd links)))"
proof (induction links arbitrary: acc)
  case Nil
  then show ?case by simp
next
  case (Cons link links)
  then obtain link_url rest where link: "link = link_url # rest"
    by (cases link) auto
  have ih: "\<And>acc. clean_links_loop links url acc =
      Inr (acc @ first_seen acc (filter (\<lambda>u. u \<noteq> url) (map hd links)))"
    using Cons by simp
  have perm: "\<And>xs. first_seen (acc @ [link_url]) xs = first_seen (link_url # acc) xs"
    by (rule first_seen_cong) simp
  show ?case
    by (simp add: link ih perm)
qed

lemma first_seen_set: "set (first_seen seen xs) = set xs - set seen"
  by (induction xs arbitrary: seen) auto

lemma first_seen_distinct: "distinct (first_seen seen xs)"
  by (induction xs arbitrary: seen) (auto simp: first_seen_set)

text \<open>
  C8. For every list of well-formed outlink entries (each entry has a URL at index 0) and
  every page URL, \<open>clean_links\<close> returns the entries' URLs with every self-link removed
  and every duplicate removed, in first-seen order: the result is what the specification's
  \<open>spec_clean_links\<close> computes, it has no duplicate, and its elements are exactly the
  input URLs other than the page's own. For page P with outlinks [P, Q, Q, R] the result
  is [Q, R].
\<close>

theorem clean_links_removes_self_and_duplicates:
  assumes "\<forall>l \<in> set links. l \<noteq> []"
  shows "clean_links links url = Inr (spec_clean_links (map hd links) url)
       \<and> distinct (spec_clean_links (map hd links) url)
       \<and> set (spec_clean_links (map hd links) url) = set (map hd links) - {url}"
proof -
  have "clean_links links url = Inr (spec_clean_links (map hd links) url)"
    using clean_links_loop_spec [OF assms, of url "[]"]
    by (simp add: clean_links_def spec_clean_links_def)
  moreover have "distinct (spec_clean_links (map hd links) url)"
    by (simp add: spec_clean_links_def first_seen_distinct)
  moreover have "set (spec_clean_links (map hd links) url) = set (map hd links) - {url}"
    by (auto simp: spec_clean_links_def first_seen_set)
  ultimately show ?thesis by simp
qed

theorem clean_links_removes_self_and_duplicates_witness:
  "clean_links [[''P'', ''a''], [''Q''], [''Q'', ''b''], [''R'']] ''P'' = Inr [''Q'', ''R'']
   \<and> spec_clean_links [''P'', ''Q'', ''Q'', ''R''] ''P'' = [''Q'', ''R'']"
  using clean_links_removes_self_and_duplicates
    [of "[[''P'', ''a''], [''Q''], [''Q'', ''b''], [''R'']]" "''P''"]
  by (simp add: spec_clean_links_def)

section \<open>Properties of the bit-array seen-set\<close>

lemma bit_array_init_wf: "bit_array_init cap = Inr t \<Longrightarrow> bit_array_wf t"
  by (auto simp: bit_array_init_def bit_array_wf_def split: if_splits)

lemma mark_seen_wf: "bit_array_wf t \<Longrightarrow> bit_array_wf (fst (mark_seen t d))"
  by (simp add: mark_seen_def bit_array_wf_def)

lemma count_list_replicate_False: "count_list (replicate n False) True = 0"
  by (induction n) simp_all

text \<open>
  C9. For the bit-array seen-set of capacity C: marking or testing a docid that is negative
  or at least C fails with IndexError, and the failed mark leaves the bit vector and the
  count unchanged; for every in-range docid d, \<open>is_seen d\<close> is true after \<open>mark_seen d\<close>;
  and the constructor yields C bits, all zero, so the count is 0 before any mark.
\<close>

theorem bit_array_seen_range_and_mark:
  assumes "bit_array_wf t"
  shows "(d < 0 \<or> d \<ge> capacity t \<longrightarrow>
            mark_seen t d = (t, Inl IndexError) \<and> is_seen t d = Inl IndexError
            \<and> seen_urls (fst (mark_seen t d)) = seen_urls t
            \<and> seen_count (fst (mark_seen t d)) = seen_count t)
       \<and> (0 \<le> e \<and> e < capacity t \<longrightarrow>
            snd (mark_seen t e) = Inr () \<and> is_seen (fst (mark_seen t e)) e = Inr True)
       \<and> (0 \<le> c \<longrightarrow>
            (\<exists>t0. bit_array_init c = Inr t0 \<and> bit_array_wf t0 \<and> capacity t0 = c
               \<and> seen_urls t0 = replicate (nat c) False \<and> seen_count t0 = 0))"
proof -
  have "d < 0 \<or> d \<ge> capacity t \<longrightarrow>
            mark_seen t d = (t, Inl IndexError) \<and> is_seen t d = Inl IndexError
            \<and> seen_urls (fst (mark_seen t d)) = seen_urls t
            \<and> seen_count (fst (mark_seen t d)) = seen_count t"
    by (auto simp: mark_seen_def is_seen_def)
  moreover have "0 \<le> e \<and> e < capacity t \<longrightarrow>
            snd (mark_seen t e) = Inr () \<and> is_seen (fst (mark_seen t e)) e = Inr True"
    using assms by (auto simp: mark_seen_def is_seen_def bit_array_wf_def)
  moreover have "0 \<le> c \<longrightarrow>
            (\<exists>t0. bit_array_init c = Inr t0 \<and> bit_array_wf t0 \<and> capacity t0 = c
               \<and> seen_urls t0 = replicate (nat c) False \<and> seen_count t0 = 0)"
    by (simp add: bit_array_init_def bit_array_wf_def seen_count_def
        count_list_replicate_False)
  ultimately show ?thesis by blast
qed

theorem bit_array_seen_range_and_mark_witness:
  "bit_array_wf \<lparr>capacity = 10, seen_urls = replicate 10 False\<rparr>
   \<and> bit_array_init 10 = Inr \<lparr>capacity = 10, seen_urls = replicate 10 False\<rparr>
   \<and> seen_count \<lparr>capacity = 10, seen_urls = replicate 10 False\<rparr> = 0
   \<and> mark_seen \<lparr>capacity = 10, seen_urls = replicate 10 False\<rparr> 10
       = (\<lparr>capacity = 10, seen_urls = replicate 10 False\<rparr>, Inl IndexError)
   \<and> is_seen \<lparr>capacity = 10, seen_urls = replicate 10 False\<rparr> (- 1) = Inl IndexError
   \<and> is_seen (fst (mark_seen \<lparr>capacity = 10, seen_urls = replicate 10 False\<rparr> 3)) 3
       = Inr True"
proof -
  have wf: "bit_array_wf \<lparr>capacity = 10, seen_urls = replicate 10 False\<rparr>"
    by (simp add: bit_array_wf_def)
  show ?thesis
    using wf
      bit_array_seen_range_and_mark
        [OF wf, of 10 3 10]
      bit_array_seen_range_and_mark
        [OF wf, of "- 1" 3 10]
    by (simp add: bit_array_init_def)
qed

section \<open>Correctness of \<open>heappush\<close> and \<open>heappop\<close>\<close>

lemma is_heap_iff:
  "is_heap h \<longleftrightarrow> (\<forall>i. 0 < i \<and> i < length h \<longrightarrow> h ! ((i - 1) div 2) \<le> h ! i)"
  by (auto simp: is_heap_def list_all_iff)

lemma siftdown_loop_is_heap:
  assumes "startpos = 0" "pos < length heap"
    and A: "\<And>i. 0 < i \<Longrightarrow> i < length heap \<Longrightarrow> i \<noteq> pos \<Longrightarrow>
              heap ! ((i - 1) div 2) \<le> heap ! i"
    and C: "\<And>c. 0 < pos \<Longrightarrow> 0 < c \<Longrightarrow> c < length heap \<Longrightarrow> (c - 1) div 2 = pos \<Longrightarrow>
              heap ! ((pos - 1) div 2) \<le> heap ! c"
    and B: "newitem \<le> heap ! pos"
  shows "is_heap (siftdown_loop heap startpos pos newitem)"
  using assms
proof (induction heap startpos pos newitem rule: siftdown_loop.induct)
  case (1 heap startpos pos newitem)
  let ?pp = "(pos - 1) div 2"
  show ?case
  proof (cases "pos > 0 \<and> newitem < heap ! ?pp")
    case True
    then have pp: "?pp < pos" by arith
    let ?h = "heap[pos := heap ! ?pp]"
    have eq: "siftdown_loop heap startpos pos newitem = siftdown_loop ?h startpos ?pp newitem"
      using True "1.prems"(1) by (subst siftdown_loop.simps) simp
    have "is_heap (siftdown_loop ?h startpos ?pp newitem)"
    proof (rule "1.IH")
      show "startpos < pos" using True "1.prems"(1) by simp
      show "newitem < heap ! ?pp" using True by simp
      show "startpos = 0" by fact
      show "?pp < length ?h" using pp "1.prems"(2) by simp
      show "newitem \<le> ?h ! ?pp" using True pp by simp
    next
      fix i assume i: "0 < i" "i < length ?h" "i \<noteq> ?pp"
      show "?h ! ((i - 1) div 2) \<le> ?h ! i"
      proof (cases "i = pos")
        case True
        then show ?thesis using pp "1.prems"(2) by simp
      next
        case False
        show ?thesis
        proof (cases "(i - 1) div 2 = pos")
          case True
          then show ?thesis
            using "1.prems"(4) [of i] i False \<open>pos > 0 \<and> newitem < heap ! ?pp\<close> "1.prems"(2)
            by simp
        next
          case F2: False
          then show ?thesis using "1.prems"(3) [of i] i False by simp
        qed
      qed
    next
      fix c assume c: "0 < ?pp" "0 < c" "c < length ?h" "(c - 1) div 2 = ?pp"
      have ppp: "(?pp - 1) div 2 < ?pp" using c(1) by arith
      have g: "heap ! ((?pp - 1) div 2) \<le> heap ! ?pp"
        using "1.prems"(3) [of ?pp] c(1) pp "1.prems"(2) by simp
      have ne: "(?pp - 1) div 2 \<noteq> pos" using ppp pp by arith
      show "?h ! ((?pp - 1) div 2) \<le> ?h ! c"
      proof (cases "c = pos")
        case True
        then show ?thesis using g ne "1.prems"(2) by simp
      next
        case False
        have "heap ! ?pp \<le> heap ! c"
          using "1.prems"(3) [of c] c False by simp
        then show ?thesis using g ne False by simp
      qed
    qed
    then show ?thesis using eq by simp
  next
    case False
    have eq: "siftdown_loop heap startpos pos newitem = heap[pos := newitem]"
      using False "1.prems"(1) by (subst siftdown_loop.simps) auto
    have "is_heap (heap[pos := newitem])"
      unfolding is_heap_iff
    proof (intro allI impI)
      fix i assume i: "0 < i \<and> i < length (heap[pos := newitem])"
      show "heap[pos := newitem] ! ((i - 1) div 2) \<le> heap[pos := newitem] ! i"
      proof (cases "i = pos")
        case True
        have "(i - 1) div 2 \<noteq> i" using i by arith
        then show ?thesis using True False i by (simp add: not_less)
      next
        case F1: False
        show ?thesis
        proof (cases "(i - 1) div 2 = pos")
          case True
          have "heap ! pos \<le> heap ! i" using "1.prems"(3) [of i] i F1 True by simp
          then show ?thesis using True F1 "1.prems"(5) "1.prems"(2) by simp
        next
          case F2: False
          then show ?thesis using "1.prems"(3) [of i] i F1 by simp
        qed
      qed
    qed
    then show ?thesis using eq by simp
  qed
qed

lemma mset_update_swap:
  assumes "i < length xs" "j < length xs" "i \<noteq> j"
  shows "mset (xs[i := xs ! j, j := x]) = mset (xs[i := x])"
proof -
  let ?ys = "xs[i := x]"
  have "xs[i := xs ! j, j := x] = ?ys[i := ?ys ! j, j := ?ys ! i]"
    using assms by simp
  moreover have "mset (?ys[i := ?ys ! j, j := ?ys ! i]) = mset ?ys"
    using assms by (intro mset_swap) simp_all
  ultimately show ?thesis by simp
qed

lemma mset_siftdown_loop:
  "pos < length heap \<Longrightarrow>
   mset (siftdown_loop heap startpos pos newitem) = mset (heap[pos := newitem])"
proof (induction heap startpos pos newitem rule: siftdown_loop.induct)
  case (1 heap startpos pos newitem)
  let ?pp = "(pos - 1) div 2"
  show ?case
  proof (cases "pos > startpos \<and> newitem < heap ! ?pp")
    case True
    then have pp: "?pp < pos" by arith
    let ?h = "heap[pos := heap ! ?pp]"
    have eq: "siftdown_loop heap startpos pos newitem = siftdown_loop ?h startpos ?pp newitem"
      using True by (subst siftdown_loop.simps) simp
    have "mset (siftdown_loop ?h startpos ?pp newitem) = mset (?h[?pp := newitem])"
      using "1.IH" True pp "1.prems" by simp
    also have "\<dots> = mset (heap[pos := newitem])"
      using pp "1.prems" by (intro mset_update_swap) simp_all
    finally show ?thesis using eq by simp
  next
    case False
    then show ?thesis by (subst siftdown_loop.simps) auto
  qed
qed

lemma is_heap_heappush: "is_heap h \<Longrightarrow> is_heap (heappush h x)"
  unfolding heappush_def siftdown_def
  by (rule siftdown_loop_is_heap) (auto simp: is_heap_iff nth_append)

lemma mset_heappush: "mset (heappush h x) = mset h + {#x#}"
  by (simp add: heappush_def siftdown_def mset_siftdown_loop)


lemma smaller_child_cases:
  assumes "2 * pos + 1 < length heap"
  shows "(smaller_child heap (length heap) (2 * pos + 1) = 2 * pos + 1
          \<or> smaller_child heap (length heap) (2 * pos + 1) = 2 * pos + 2)
       \<and> smaller_child heap (length heap) (2 * pos + 1) < length heap
       \<and> heap ! smaller_child heap (length heap) (2 * pos + 1) \<le> heap ! (2 * pos + 1)
       \<and> (2 * pos + 2 < length heap \<longrightarrow>
            heap ! smaller_child heap (length heap) (2 * pos + 1) \<le> heap ! (2 * pos + 2))"
  using assms by (auto simp: smaller_child_def not_less)

lemma child_cases: "0 < c \<Longrightarrow> (c - 1) div 2 = pos \<longleftrightarrow> c = 2 * pos + 1 \<or> c = 2 * pos + 2"
  for c pos :: nat
  by arith

lemma siftup_loop_props:
  assumes "endpos = length heap" "pos < length heap"
    and A: "\<And>i. 0 < i \<Longrightarrow> i < length heap \<Longrightarrow> (i - 1) div 2 \<noteq> pos \<Longrightarrow>
              heap ! ((i - 1) div 2) \<le> heap ! i"
    and C: "\<And>c. 0 < pos \<Longrightarrow> 0 < c \<Longrightarrow> c < length heap \<Longrightarrow> (c - 1) div 2 = pos \<Longrightarrow>
              heap ! ((pos - 1) div 2) \<le> heap ! c"
  shows "snd (siftup_loop heap endpos pos) < length heap
       \<and> length heap \<le> 2 * snd (siftup_loop heap endpos pos) + 1
       \<and> is_heap (fst (siftup_loop heap endpos pos))
       \<and> (\<forall>x. mset ((fst (siftup_loop heap endpos pos))[snd (siftup_loop heap endpos pos) := x])
              = mset (heap[pos := x]))"
  using assms
proof (induction heap endpos pos rule: siftup_loop.induct)
  case (1 heap endpos pos)
  note len = "1.prems"(1)
  show ?case
  proof (cases "2 * pos + 1 < endpos")
    case False
    have eq: "siftup_loop heap endpos pos = (heap, pos)"
      using False by (subst siftup_loop.simps) simp
    have "is_heap heap"
      unfolding is_heap_iff
    proof (intro allI impI)
      fix i assume i: "0 < i \<and> i < length heap"
      have "(i - 1) div 2 \<noteq> pos" using i False len by arith
      then show "heap ! ((i - 1) div 2) \<le> heap ! i" using "1.prems"(3) i by simp
    qed
    then show ?thesis using eq False len "1.prems"(2) by simp
  next
    case True
    let ?c = "smaller_child heap endpos (2 * pos + 1)"
    let ?h = "heap[pos := heap ! ?c]"
    have sc: "(?c = 2 * pos + 1 \<or> ?c = 2 * pos + 2) \<and> ?c < length heap
        \<and> heap ! ?c \<le> heap ! (2 * pos + 1)
        \<and> (2 * pos + 2 < length heap \<longrightarrow> heap ! ?c \<le> heap ! (2 * pos + 2))"
      using smaller_child_cases [of pos heap] True len by simp
    have cpos: "pos < ?c" "?c \<noteq> pos" "0 < ?c" "(?c - 1) div 2 = pos"
      using sc by auto
    have eq: "siftup_loop heap endpos pos = siftup_loop ?h endpos ?c"
      using True by (subst siftup_loop.simps) simp
    have ih: "snd (siftup_loop ?h endpos ?c) < length ?h
       \<and> length ?h \<le> 2 * snd (siftup_loop ?h endpos ?c) + 1
       \<and> is_heap (fst (siftup_loop ?h endpos ?c))
       \<and> (\<forall>x. mset ((fst (siftup_loop ?h endpos ?c))[snd (siftup_loop ?h endpos ?c) := x])
              = mset (?h[?c := x]))"
    proof (rule "1.IH")
      show "2 * pos + 1 < endpos" by fact
      show "endpos = length ?h" using len by simp
      show "?c < length ?h" using sc by simp
    next
      fix i assume i: "0 < i" "i < length ?h" "(i - 1) div 2 \<noteq> ?c"
      show "?h ! ((i - 1) div 2) \<le> ?h ! i"
      proof (cases "i = pos")
        case True
        have "(pos - 1) div 2 \<noteq> pos" using i True by arith
        then show ?thesis
          using True i "1.prems"(4) [of ?c] sc cpos "1.prems"(2) by simp
      next
        case F1: False
        show ?thesis
        proof (cases "(i - 1) div 2 = pos")
          case True
          then have "i = 2 * pos + 1 \<or> i = 2 * pos + 2"
            using i(1) child_cases by blast
          then have "heap ! ?c \<le> heap ! i" using sc i by auto
          then show ?thesis using True F1 "1.prems"(2) by simp
        next
          case False
          then show ?thesis using "1.prems"(3) [of i] i F1 by simp
        qed
      qed
    next
      fix d assume d: "0 < ?c" "0 < d" "d < length ?h" "(d - 1) div 2 = ?c"
      have "d \<noteq> pos" using d cpos by arith
      moreover have "heap ! ?c \<le> heap ! d"
        using "1.prems"(3) [of d] d cpos by simp
      ultimately show "?h ! ((?c - 1) div 2) \<le> ?h ! d"
        using cpos "1.prems"(2) by simp
    qed
    have ms: "\<And>x. mset (?h[?c := x]) = mset (heap[pos := x])"
      using sc cpos "1.prems"(2) by (intro mset_update_swap) simp_all
    show ?thesis using ih ms eq by simp
  qed
qed

lemma siftup_root:
  assumes "heap \<noteq> []"
    and A: "\<And>i. 0 < i \<Longrightarrow> i < length heap \<Longrightarrow> (i - 1) div 2 \<noteq> 0 \<Longrightarrow>
              heap ! ((i - 1) div 2) \<le> heap ! i"
  shows "is_heap (siftup heap 0) \<and> mset (siftup heap 0) = mset heap"
proof -
  obtain h' p' where sl: "siftup_loop heap (length heap) 0 = (h', p')"
    by (cases "siftup_loop heap (length heap) 0")
  have props: "p' < length heap \<and> length heap \<le> 2 * p' + 1 \<and> is_heap h'
      \<and> (\<forall>x. mset (h'[p' := x]) = mset (heap[0 := x]))"
    using siftup_loop_props [of "length heap" heap 0] assms sl by simp
  have len: "length h' = length heap"
    using length_siftup_loop [of heap "length heap" 0] sl by simp
  let ?H = "h'[p' := heap ! 0]"
  have su: "siftup heap 0 = siftdown_loop ?H 0 p' (heap ! 0)"
    using sl props len by (simp add: siftup_def siftdown_def)
  have "is_heap (siftdown_loop ?H 0 p' (heap ! 0))"
  proof (rule siftdown_loop_is_heap)
    show "(0::nat) = 0" by simp
    show "p' < length ?H" using props len by simp
    show "heap ! 0 \<le> ?H ! p'" using props len by simp
  next
    fix i assume i: "0 < i" "i < length ?H" "i \<noteq> p'"
    have "i < length heap" using i len by simp
    moreover have "length heap \<le> 2 * p' + 1" using props by simp
    ultimately have "(i - 1) div 2 \<noteq> p'" using i(1,3) by arith
    moreover have "h' ! ((i - 1) div 2) \<le> h' ! i"
      using props i len by (simp add: is_heap_iff)
    ultimately show "?H ! ((i - 1) div 2) \<le> ?H ! i" using i(3) by simp
  next
    fix c assume c: "0 < p'" "0 < c" "c < length ?H" "(c - 1) div 2 = p'"
    moreover have "length heap \<le> 2 * p' + 1" using props by simp
    moreover have "c < length heap" using c len by simp
    ultimately have False by arith
    then show "?H ! ((p' - 1) div 2) \<le> ?H ! c" ..
  qed
  moreover have "mset (siftdown_loop ?H 0 p' (heap ! 0)) = mset heap"
  proof -
    have "mset (siftdown_loop ?H 0 p' (heap ! 0)) = mset (?H[p' := heap ! 0])"
      using props len by (intro mset_siftdown_loop) simp
    also have "\<dots> = mset (heap[0 := heap ! 0])" using props by simp
    finally show ?thesis by simp
  qed
  ultimately show ?thesis using su by simp
qed

lemma is_heap_root_least:
  assumes "is_heap h" "i < length h"
  shows "h ! 0 \<le> h ! i"
  using assms(2)
proof (induction i rule: less_induct)
  case (less i)
  show ?case
  proof (cases "i = 0")
    case True
    then show ?thesis by simp
  next
    case False
    then have p: "(i - 1) div 2 < i" by arith
    have "h ! 0 \<le> h ! ((i - 1) div 2)" using less p by simp
    also have "\<dots> \<le> h ! i" using assms(1) False less.prems by (simp add: is_heap_iff)
    finally show ?thesis .
  qed
qed

lemma heappop_correct:
  assumes "is_heap h" "h \<noteq> []"
  shows "\<exists>rest. heappop h = Some (hd h, rest) \<and> is_heap rest
           \<and> mset h = add_mset (hd h) (mset rest) \<and> (\<forall>y \<in> set h. hd h \<le> y)"
proof -
  have least: "\<forall>y \<in> set h. hd h \<le> y"
    using is_heap_root_least [OF assms(1)] assms(2)
    by (auto simp: in_set_conv_nth hd_conv_nth)
  obtain ys y where h: "h = ys @ [y]" using assms(2) by (cases h rule: rev_cases) auto
  show ?thesis
  proof (cases "ys = []")
    case True
    then show ?thesis using h least by (simp add: heappop_def is_heap_def)
  next
    case False
    let ?H = "ys[0 := y]"
    have pop: "heappop h = Some (hd h, siftup ?H 0)"
      using h False by (simp add: heappop_def)
    have "is_heap (siftup ?H 0) \<and> mset (siftup ?H 0) = mset ?H"
    proof (rule siftup_root)
      show "?H \<noteq> []" using False by simp
    next
      fix i assume i: "0 < i" "i < length ?H" "(i - 1) div 2 \<noteq> 0"
      have "h ! ((i - 1) div 2) \<le> h ! i"
        using assms(1) i h by (simp add: is_heap_iff)
      moreover have "(i - 1) div 2 < length ys" using i by simp
      ultimately show "?H ! ((i - 1) div 2) \<le> ?H ! i"
        using i h by (simp add: nth_append)
    qed
    moreover have "mset h = add_mset (hd h) (mset ?H)"
    proof -
      obtain z zs where ys: "ys = z # zs" using False by (cases ys) auto
      show ?thesis using h ys by simp
    qed
    ultimately show ?thesis using pop least by simp
  qed
qed

text \<open>\<open>siftup\<close> and \<open>heapify\<close> permute the list.\<close>

lemma siftup_loop_mset:
  "endpos = length heap \<Longrightarrow> pos < length heap \<Longrightarrow>
   snd (siftup_loop heap endpos pos) < length heap
   \<and> (\<forall>x. mset ((fst (siftup_loop heap endpos pos))[snd (siftup_loop heap endpos pos) := x])
          = mset (heap[pos := x]))"
proof (induction heap endpos pos rule: siftup_loop.induct)
  case (1 heap endpos pos)
  show ?case
  proof (cases "2 * pos + 1 < endpos")
    case False
    then show ?thesis using "1.prems" by (subst (1 2 3) siftup_loop.simps) simp
  next
    case True
    let ?c = "smaller_child heap endpos (2 * pos + 1)"
    let ?h = "heap[pos := heap ! ?c]"
    have sc: "(?c = 2 * pos + 1 \<or> ?c = 2 * pos + 2) \<and> ?c < length heap"
      using smaller_child_cases [of pos heap] True "1.prems" by simp
    have eq: "siftup_loop heap endpos pos = siftup_loop ?h endpos ?c"
      using True by (subst siftup_loop.simps) simp
    have ih: "snd (siftup_loop ?h endpos ?c) < length ?h
       \<and> (\<forall>x. mset ((fst (siftup_loop ?h endpos ?c))[snd (siftup_loop ?h endpos ?c) := x])
              = mset (?h[?c := x]))"
      using "1.IH" [OF True] "1.prems" sc by simp
    have ms: "\<And>x. mset (?h[?c := x]) = mset (heap[pos := x])"
      using sc "1.prems" by (intro mset_update_swap) auto
    show ?thesis using ih ms eq by simp
  qed
qed

lemma mset_siftup: "pos < length heap \<Longrightarrow> mset (siftup heap pos) = mset heap"
proof -
  assume pos: "pos < length heap"
  obtain h' p' where sl: "siftup_loop heap (length heap) pos = (h', p')"
    by (cases "siftup_loop heap (length heap) pos")
  have props: "p' < length heap \<and> (\<forall>x. mset (h'[p' := x]) = mset (heap[pos := x]))"
    using siftup_loop_mset [of "length heap" heap pos] pos sl by simp
  have len: "length h' = length heap"
    using length_siftup_loop [of heap "length heap" pos] sl by simp
  have "siftup heap pos = siftdown_loop (h'[p' := heap ! pos]) pos p' (heap ! pos)"
    using sl props len by (simp add: siftup_def siftdown_def)
  moreover have "mset (siftdown_loop (h'[p' := heap ! pos]) pos p' (heap ! pos))
      = mset ((h'[p' := heap ! pos])[p' := heap ! pos])"
    using props len by (intro mset_siftdown_loop) simp
  ultimately show ?thesis using props by simp
qed

lemma fold_siftup:
  "\<forall>i \<in> set is. i < length h \<Longrightarrow>
   mset (fold (\<lambda>i h. siftup h i) is h) = mset h
   \<and> length (fold (\<lambda>i h. siftup h i) is h) = length h"
  by (induction "is" arbitrary: h) (simp_all add: mset_siftup)

lemma heapify_indices: "\<forall>i \<in> set (rev [0 ..< length x div 2]). i < length x"
  by auto

lemma mset_heapify: "mset (heapify x) = mset x"
  using fold_siftup [OF heapify_indices, of x] by (simp add: heapify_def)

lemma length_heapify: "length (heapify x) = length x"
  using fold_siftup [OF heapify_indices, of x] by (simp add: heapify_def)

text \<open>\<open>heapify\<close> establishes the heap property on any list.\<close>

lemma anc_le: "anc k pos \<Longrightarrow> k \<le> pos"
  by (induction rule: anc.induct) simp_all

lemma anc_parent: "anc k pos \<Longrightarrow> k < pos \<Longrightarrow> anc k ((pos - 1) div 2)"
  by (induction rule: anc.induct) simp_all

lemma anc_parent_le: "anc k pos \<Longrightarrow> k < pos \<Longrightarrow> k \<le> (pos - 1) div 2"
  using anc_parent anc_le by blast

lemma siftdown_loop_heap_from:
  assumes "anc k pos" "pos < length heap"
    and A: "\<And>i. 0 < i \<Longrightarrow> i < length heap \<Longrightarrow> k \<le> (i - 1) div 2 \<Longrightarrow> i \<noteq> pos \<Longrightarrow>
              heap ! ((i - 1) div 2) \<le> heap ! i"
    and C: "\<And>c. k < pos \<Longrightarrow> 0 < c \<Longrightarrow> c < length heap \<Longrightarrow> (c - 1) div 2 = pos \<Longrightarrow>
              heap ! ((pos - 1) div 2) \<le> heap ! c"
    and B: "newitem \<le> heap ! pos"
  shows "heap_from k (siftdown_loop heap k pos newitem)"
  using assms
proof (induction heap k pos newitem rule: siftdown_loop.induct)
  case (1 heap k pos newitem)
  let ?pp = "(pos - 1) div 2"
  have kpos: "k \<le> pos" using "1.prems"(1) by (rule anc_le)
  show ?case
  proof (cases "pos > k \<and> newitem < heap ! ?pp")
    case True
    then have pp: "?pp < pos" by arith
    have kpp: "k \<le> ?pp" using anc_parent_le [OF "1.prems"(1)] True by blast
    let ?h = "heap[pos := heap ! ?pp]"
    have eq: "siftdown_loop heap k pos newitem = siftdown_loop ?h k ?pp newitem"
      using True by (subst siftdown_loop.simps) simp
    have "heap_from k (siftdown_loop ?h k ?pp newitem)"
    proof (rule "1.IH")
      show "k < pos" using True by simp
      show "newitem < heap ! ?pp" using True by simp
      show "anc k ?pp" using anc_parent [OF "1.prems"(1)] True by blast
      show "?pp < length ?h" using pp "1.prems"(2) by simp
      have "newitem \<le> heap ! ?pp" using True by (simp add: less_imp_le)
      then show "newitem \<le> ?h ! ?pp" using pp by simp
    next
      fix i assume i: "0 < i" "i < length ?h" "k \<le> (i - 1) div 2" "i \<noteq> ?pp"
      show "?h ! ((i - 1) div 2) \<le> ?h ! i"
      proof (cases "i = pos")
        case True
        then show ?thesis using pp "1.prems"(2) by simp
      next
        case False
        show ?thesis
        proof (cases "(i - 1) div 2 = pos")
          case True
          then show ?thesis
            using "1.prems"(4) [of i] i False \<open>pos > k \<and> newitem < heap ! ?pp\<close> "1.prems"(2)
            by simp
        next
          case F2: False
          then show ?thesis using "1.prems"(3) [of i] i False by simp
        qed
      qed
    next
      fix c assume c: "k < ?pp" "0 < c" "c < length ?h" "(c - 1) div 2 = ?pp"
      have ppp: "(?pp - 1) div 2 < ?pp" using c(1) by arith
      have ancpp: "anc k ?pp" using anc_parent [OF "1.prems"(1)] True by blast
      have kppp: "k \<le> (?pp - 1) div 2"
        using anc_parent_le [OF ancpp c(1)] .
      have g: "heap ! ((?pp - 1) div 2) \<le> heap ! ?pp"
        using "1.prems"(3) [of ?pp] c(1) pp "1.prems"(2) kppp by simp
      have ne: "(?pp - 1) div 2 \<noteq> pos" using ppp pp by arith
      show "?h ! ((?pp - 1) div 2) \<le> ?h ! c"
      proof (cases "c = pos")
        case True
        then show ?thesis using g ne "1.prems"(2) by simp
      next
        case False
        have "heap ! ?pp \<le> heap ! c"
          using "1.prems"(3) [of c] c False kpp by simp
        then show ?thesis using g ne False by simp
      qed
    qed
    then show ?thesis using eq by simp
  next
    case False
    have eq: "siftdown_loop heap k pos newitem = heap[pos := newitem]"
      using False by (subst siftdown_loop.simps) auto
    have "heap_from k (heap[pos := newitem])"
      unfolding heap_from_def
    proof (intro allI impI)
      fix i assume i: "0 < i \<and> i < length (heap[pos := newitem]) \<and> k \<le> (i - 1) div 2"
      show "heap[pos := newitem] ! ((i - 1) div 2) \<le> heap[pos := newitem] ! i"
      proof (cases "i = pos")
        case True
        have "(i - 1) div 2 \<noteq> i" using i by arith
        moreover have "k < pos" using i True by arith
        ultimately show ?thesis using True False i by (simp add: not_less)
      next
        case F1: False
        show ?thesis
        proof (cases "(i - 1) div 2 = pos")
          case True
          have "heap ! pos \<le> heap ! i" using "1.prems"(3) [of i] i F1 True by simp
          then show ?thesis using True F1 "1.prems"(5) "1.prems"(2) by simp
        next
          case F2: False
          then show ?thesis using "1.prems"(3) [of i] i F1 by simp
        qed
      qed
    qed
    then show ?thesis using eq by simp
  qed
qed

lemma anc_child:
  "anc k pos \<Longrightarrow> c = 2 * pos + 1 \<or> c = 2 * pos + 2 \<Longrightarrow> anc k c"
  using anc_left [of k pos] anc_right [of k pos] by auto

lemma siftup_loop_heap_from:
  assumes "endpos = length heap" "pos < length heap" "anc k pos"
    and A: "\<And>i. 0 < i \<Longrightarrow> i < length heap \<Longrightarrow> k \<le> (i - 1) div 2 \<Longrightarrow>
              (i - 1) div 2 \<noteq> pos \<Longrightarrow> heap ! ((i - 1) div 2) \<le> heap ! i"
    and C: "\<And>c. k < pos \<Longrightarrow> 0 < c \<Longrightarrow> c < length heap \<Longrightarrow> (c - 1) div 2 = pos \<Longrightarrow>
              heap ! ((pos - 1) div 2) \<le> heap ! c"
  shows "length heap \<le> 2 * snd (siftup_loop heap endpos pos) + 1
       \<and> heap_from k (fst (siftup_loop heap endpos pos))
       \<and> anc k (snd (siftup_loop heap endpos pos))"
  using assms
proof (induction heap endpos pos rule: siftup_loop.induct)
  case (1 heap endpos pos)
  note len = "1.prems"(1)
  show ?case
  proof (cases "2 * pos + 1 < endpos")
    case False
    have eq: "siftup_loop heap endpos pos = (heap, pos)"
      using False by (subst siftup_loop.simps) simp
    have "heap_from k heap"
      unfolding heap_from_def
    proof (intro allI impI)
      fix i assume i: "0 < i \<and> i < length heap \<and> k \<le> (i - 1) div 2"
      have "(i - 1) div 2 \<noteq> pos" using i False len by arith
      then show "heap ! ((i - 1) div 2) \<le> heap ! i" using "1.prems"(4) i by simp
    qed
    then show ?thesis using eq False len "1.prems"(3) by simp
  next
    case True
    let ?c = "smaller_child heap endpos (2 * pos + 1)"
    let ?h = "heap[pos := heap ! ?c]"
    have sc: "(?c = 2 * pos + 1 \<or> ?c = 2 * pos + 2) \<and> ?c < length heap
        \<and> heap ! ?c \<le> heap ! (2 * pos + 1)
        \<and> (2 * pos + 2 < length heap \<longrightarrow> heap ! ?c \<le> heap ! (2 * pos + 2))"
      using smaller_child_cases [of pos heap] True len by simp
    have cpos: "pos < ?c" "?c \<noteq> pos" "0 < ?c" "(?c - 1) div 2 = pos"
      using sc by auto
    have kpos: "k \<le> pos" using "1.prems"(3) by (rule anc_le)
    have ancc: "anc k ?c" using anc_child [OF "1.prems"(3)] sc by blast
    have eq: "siftup_loop heap endpos pos = siftup_loop ?h endpos ?c"
      using True by (subst siftup_loop.simps) simp
    have ih: "length ?h \<le> 2 * snd (siftup_loop ?h endpos ?c) + 1
       \<and> heap_from k (fst (siftup_loop ?h endpos ?c))
       \<and> anc k (snd (siftup_loop ?h endpos ?c))"
    proof (rule "1.IH")
      show "2 * pos + 1 < endpos" by fact
      show "endpos = length ?h" using len by simp
      show "?c < length ?h" using sc by simp
      show "anc k ?c" by (rule ancc)
    next
      fix i assume i: "0 < i" "i < length ?h" "k \<le> (i - 1) div 2" "(i - 1) div 2 \<noteq> ?c"
      show "?h ! ((i - 1) div 2) \<le> ?h ! i"
      proof (cases "i = pos")
        case True
        have "(pos - 1) div 2 \<noteq> pos" using i True by arith
        moreover have "k < pos" using i True by arith
        ultimately show ?thesis
          using True i "1.prems"(5) [of ?c] sc cpos "1.prems"(2) by simp
      next
        case F1: False
        show ?thesis
        proof (cases "(i - 1) div 2 = pos")
          case True
          then have "i = 2 * pos + 1 \<or> i = 2 * pos + 2"
            using i(1) child_cases by blast
          then have "heap ! ?c \<le> heap ! i" using sc i by auto
          then show ?thesis using True F1 "1.prems"(2) by simp
        next
          case False
          then show ?thesis using "1.prems"(4) [of i] i F1 by simp
        qed
      qed
    next
      fix d assume d: "k < ?c" "0 < d" "d < length ?h" "(d - 1) div 2 = ?c"
      have "d \<noteq> pos" using d cpos by arith
      moreover have "heap ! ?c \<le> heap ! d"
        using "1.prems"(4) [of d] d cpos kpos by simp
      ultimately show "?h ! ((?c - 1) div 2) \<le> ?h ! d"
        using cpos "1.prems"(2) by simp
    qed
    show ?thesis using ih eq by simp
  qed
qed

lemma siftup_heap_from:
  assumes "pos < length heap" "heap_from (Suc pos) heap"
  shows "heap_from pos (siftup heap pos)"
proof -
  obtain h' p' where sl: "siftup_loop heap (length heap) pos = (h', p')"
    by (cases "siftup_loop heap (length heap) pos")
  have "length heap \<le> 2 * snd (siftup_loop heap (length heap) pos) + 1
       \<and> heap_from pos (fst (siftup_loop heap (length heap) pos))
       \<and> anc pos (snd (siftup_loop heap (length heap) pos))"
  proof (rule siftup_loop_heap_from)
    show "length heap = length heap" by (rule refl)
    show "pos < length heap" by fact
    show "anc pos pos" by (rule anc_self)
  next
    fix i assume i: "0 < i" "i < length heap" "pos \<le> (i - 1) div 2" "(i - 1) div 2 \<noteq> pos"
    then have "Suc pos \<le> (i - 1) div 2" by arith
    then show "heap ! ((i - 1) div 2) \<le> heap ! i"
      using assms(2) i by (simp add: heap_from_def)
  next
    fix c assume "pos < pos"
    then show "heap ! ((pos - 1) div 2) \<le> heap ! c" by simp
  qed
  then have props: "length heap \<le> 2 * p' + 1" "heap_from pos h'" "anc pos p'"
    using sl by simp_all
  have p': "p' < length heap"
    using siftup_loop_mset [of "length heap" heap pos] assms(1) sl by simp
  have len: "length h' = length heap"
    using length_siftup_loop [of heap "length heap" pos] sl by simp
  let ?H = "h'[p' := heap ! pos]"
  have su: "siftup heap pos = siftdown_loop ?H pos p' (heap ! pos)"
    using sl p' len by (simp add: siftup_def siftdown_def)
  have "heap_from pos (siftdown_loop ?H pos p' (heap ! pos))"
  proof (rule siftdown_loop_heap_from)
    show "anc pos p'" by (rule props(3))
    show "p' < length ?H" using p' len by simp
    show "heap ! pos \<le> ?H ! p'" using p' len by simp
  next
    fix i assume i: "0 < i" "i < length ?H" "pos \<le> (i - 1) div 2" "i \<noteq> p'"
    have "i < length heap" using i len by simp
    then have "(i - 1) div 2 \<noteq> p'" using i(1,4) props(1) by arith
    moreover have "h' ! ((i - 1) div 2) \<le> h' ! i"
      using props(2) i len by (simp add: heap_from_def)
    ultimately show "?H ! ((i - 1) div 2) \<le> ?H ! i" using i(4) by simp
  next
    fix c assume c: "pos < p'" "0 < c" "c < length ?H" "(c - 1) div 2 = p'"
    have "c < length heap" using c len by simp
    then have False using c(2,4) props(1) by arith
    then show "?H ! ((p' - 1) div 2) \<le> ?H ! c" ..
  qed
  then show ?thesis using su by simp
qed

lemma fold_siftup_heap:
  "j \<le> length h \<Longrightarrow> heap_from j h \<Longrightarrow>
   heap_from 0 (fold (\<lambda>i h. siftup h i) (rev [0 ..< j]) h)"
proof (induction j arbitrary: h)
  case 0
  then show ?case by simp
next
  case (Suc j)
  have "heap_from j (siftup h j)"
    using Suc.prems by (intro siftup_heap_from) simp_all
  moreover have "j \<le> length (siftup h j)" using Suc.prems by simp
  ultimately have "heap_from 0 (fold (\<lambda>i h. siftup h i) (rev [0 ..< j]) (siftup h j))"
    by (intro Suc.IH)
  then show ?case by simp
qed

lemma is_heap_heapify: "is_heap (heapify x)"
proof -
  have "heap_from (length x div 2) x"
    unfolding heap_from_def
  proof (intro allI impI)
    fix i assume "0 < i \<and> i < length x \<and> length x div 2 \<le> (i - 1) div 2"
    then have False by arith
    then show "x ! ((i - 1) div 2) \<le> x ! i" ..
  qed
  then have "heap_from 0 (heapify x)"
    unfolding heapify_def by (intro fold_siftup_heap) simp_all
  then show ?thesis by (simp add: heap_from_def is_heap_iff)
qed

section \<open>Seeds in the quality frontier\<close>

text \<open>
  C10 says that \<open>add(page, None)\<close> always enqueues the URL. In the updating variant it
  does not when the URL is already tracked: \<open>put\<close> refuses it with AssertionError. The
  orchestrator's seeding step has no seen-set test before the call, so a seed URL that
  occurs twice reaches this: the first seeding of ''s'' succeeds, the second raises.
\<close>

theorem duplicate_seed_is_refused:
  "populate_frontier_oracle_seed
     \<lparr>qf_queue = UpdatingQ pq_init, qf_oracle = True, no_priority_pages = 0,
      priority_pages = 0, no_father_pages = 0\<rparr> ''s'' 0 None (Some 0.5)
   = Inr \<lparr>qf_queue = UpdatingQ \<lparr>pq_queue = [(- 1, ''s'')], pq_deleted = [''s'' \<mapsto> (- 1, 0)],
                                  pq_num_enqueued = 1, pq_num_deleted = 0\<rparr>,
          qf_oracle = True, no_priority_pages = 0, priority_pages = 1, no_father_pages = 1\<rparr>
   \<and> populate_frontier_oracle_seed
     \<lparr>qf_queue = UpdatingQ \<lparr>pq_queue = [(- 1, ''s'')], pq_deleted = [''s'' \<mapsto> (- 1, 0)],
                            pq_num_enqueued = 1, pq_num_deleted = 0\<rparr>,
      qf_oracle = True, no_priority_pages = 0, priority_pages = 1, no_father_pages = 1\<rparr>
     ''s'' 0 None (Some 0.5)
   = Inl AssertionError"
  by (simp add: populate_frontier_oracle_seed_def quality_add_def
      quality_add_with_max_priority_def pq_put_def pq_init_def MAX_PRIORITY_def
      internal_priority_def heappush_def siftdown_def siftdown_loop.simps)

text \<open>
  C10, amended. The seeding step of oracle mode, which is \<open>add(page, None)\<close> on the
  seed's page, never reads the page's metadata. On the heap variant it always succeeds; on
  the updating variant it succeeds when the URL is not tracked and raises AssertionError
  when it is. When it succeeds the queue's list holds its former entries and the new entry
  (-1, url), which is priority \<open>MAX_PRIORITY = 1\<close>, a heap stays a heap, the updating
  queue's table records (-1, 0) for the URL, and \<open>enqueued()\<close> grows by one. The
  pre-parsed qscore has no effect on any of this.
\<close>

theorem seed_enters_at_max_priority:
  "(qf_queue fm = HeapQ q \<longrightarrow>
      (\<exists>fm' q'. populate_frontier_oracle_seed fm url docid i qscore = Inr fm'
         \<and> qf_queue fm' = HeapQ q'
         \<and> mset (hq_queue q') = add_mset (- 1, url) (mset (hq_queue q))
         \<and> (is_heap (hq_queue q) \<longrightarrow> is_heap (hq_queue q'))
         \<and> quality_enqueued fm' = quality_enqueued fm + 1))
   \<and> (qf_queue fm = UpdatingQ s \<and> pq_deleted s url = None \<longrightarrow>
      (\<exists>fm' s'. populate_frontier_oracle_seed fm url docid i qscore = Inr fm'
         \<and> qf_queue fm' = UpdatingQ s'
         \<and> mset (pq_queue s') = add_mset (- 1, url) (mset (pq_queue s))
         \<and> (is_heap (pq_queue s) \<longrightarrow> is_heap (pq_queue s'))
         \<and> pq_deleted s' = (pq_deleted s)(url \<mapsto> (- 1, 0))
         \<and> quality_enqueued fm' = quality_enqueued fm + 1))
   \<and> (qf_queue fm = UpdatingQ s \<and> pq_deleted s url \<noteq> None \<longrightarrow>
        populate_frontier_oracle_seed fm url docid i qscore = Inl AssertionError)
   \<and> quality_add fm page None
        = populate_frontier_oracle_seed fm (page_url page) docid i qscore"
proof (intro conjI impI)
  assume h: "qf_queue fm = HeapQ q"
  let ?q' = "q\<lparr>hq_queue := heappush (hq_queue q) (- 1, url)\<rparr>"
  let ?fm' = "fm\<lparr>qf_queue := HeapQ ?q', no_father_pages := no_father_pages fm + 1,
                 priority_pages := priority_pages fm + 1\<rparr>"
  have "populate_frontier_oracle_seed fm url docid i qscore = Inr ?fm'"
    using h by (simp add: populate_frontier_oracle_seed_def quality_add_def
        quality_add_with_max_priority_def heap_put_def MAX_PRIORITY_def internal_priority_def)
  moreover have "mset (hq_queue ?q') = add_mset (- 1, url) (mset (hq_queue q))"
    by (simp add: mset_heappush)
  moreover have "is_heap (hq_queue q) \<longrightarrow> is_heap (hq_queue ?q')"
    by (simp add: is_heap_heappush)
  moreover have "quality_enqueued ?fm' = quality_enqueued fm + 1"
    using h by (simp add: quality_enqueued_def heap_enqueued_def)
  ultimately show "\<exists>fm' q'. populate_frontier_oracle_seed fm url docid i qscore = Inr fm'
         \<and> qf_queue fm' = HeapQ q'
         \<and> mset (hq_queue q') = add_mset (- 1, url) (mset (hq_queue q))
         \<and> (is_heap (hq_queue q) \<longrightarrow> is_heap (hq_queue q'))
         \<and> quality_enqueued fm' = quality_enqueued fm + 1"
    by (intro exI [of _ ?fm'] exI [of _ ?q']) simp
next
  assume h: "qf_queue fm = UpdatingQ s \<and> pq_deleted s url = None"
  let ?s' = "s\<lparr>pq_queue := heappush (pq_queue s) (- 1, url),
               pq_deleted := (pq_deleted s)(url \<mapsto> (- 1, 0)),
               pq_num_enqueued := pq_num_enqueued s + 1\<rparr>"
  let ?fm' = "fm\<lparr>qf_queue := UpdatingQ ?s', no_father_pages := no_father_pages fm + 1,
                 priority_pages := priority_pages fm + 1\<rparr>"
  have "populate_frontier_oracle_seed fm url docid i qscore = Inr ?fm'"
    using h by (simp add: populate_frontier_oracle_seed_def quality_add_def
        quality_add_with_max_priority_def pq_put_def MAX_PRIORITY_def internal_priority_def)
  moreover have "mset (pq_queue ?s') = add_mset (- 1, url) (mset (pq_queue s))"
    by (simp add: mset_heappush)
  moreover have "is_heap (pq_queue s) \<longrightarrow> is_heap (pq_queue ?s')"
    by (simp add: is_heap_heappush)
  moreover have "quality_enqueued ?fm' = quality_enqueued fm + 1"
    using h by (simp add: quality_enqueued_def pq_enqueued_def)
  ultimately show "\<exists>fm' s'. populate_frontier_oracle_seed fm url docid i qscore = Inr fm'
         \<and> qf_queue fm' = UpdatingQ s'
         \<and> mset (pq_queue s') = add_mset (- 1, url) (mset (pq_queue s))
         \<and> (is_heap (pq_queue s) \<longrightarrow> is_heap (pq_queue s'))
         \<and> pq_deleted s' = (pq_deleted s)(url \<mapsto> (- 1, 0))
         \<and> quality_enqueued fm' = quality_enqueued fm + 1"
    by (intro exI [of _ ?fm'] exI [of _ ?s']) simp
next
  assume "qf_queue fm = UpdatingQ s \<and> pq_deleted s url \<noteq> None"
  then show "populate_frontier_oracle_seed fm url docid i qscore = Inl AssertionError"
    by (auto simp: populate_frontier_oracle_seed_def quality_add_def
        quality_add_with_max_priority_def pq_put_def)
next
  show "quality_add fm page None
        = populate_frontier_oracle_seed fm (page_url page) docid i qscore"
    by (simp add: populate_frontier_oracle_seed_def quality_add_def)
qed

theorem seed_enters_at_max_priority_witness:
  "(\<exists>fm' q'. populate_frontier_oracle_seed
        \<lparr>qf_queue = HeapQ \<lparr>hq_queue = [(- 0.5, ''a'')]\<rparr>, qf_oracle = True,
         no_priority_pages = 0, priority_pages = 1, no_father_pages = 0\<rparr>
        ''s'' 0 None (Some 0.25) = Inr fm'
      \<and> qf_queue fm' = HeapQ q'
      \<and> mset (hq_queue q') = {#(- 1, ''s''), (- 0.5, ''a'')#}
      \<and> is_heap (hq_queue q'))
   \<and> (\<exists>fm' s'. populate_frontier_oracle_seed
        \<lparr>qf_queue = UpdatingQ pq_init, qf_oracle = True,
         no_priority_pages = 0, priority_pages = 0, no_father_pages = 0\<rparr>
        ''s'' 0 None (Some 0.25) = Inr fm'
      \<and> qf_queue fm' = UpdatingQ s'
      \<and> mset (pq_queue s') = {#(- 1, ''s'')#}
      \<and> pq_deleted s' ''s'' = Some (- 1, 0))
   \<and> populate_frontier_oracle_seed
        \<lparr>qf_queue = UpdatingQ \<lparr>pq_queue = [(- 1, ''s'')],
            pq_deleted = [''s'' \<mapsto> (- 1, 0)], pq_num_enqueued = 1, pq_num_deleted = 0\<rparr>,
         qf_oracle = True, no_priority_pages = 0, priority_pages = 1, no_father_pages = 1\<rparr>
        ''s'' 0 None (Some 0.25) = Inl AssertionError"
proof -
  let ?F1 = "\<lparr>qf_queue = HeapQ \<lparr>hq_queue = [(- 0.5, ''a'')]\<rparr>, qf_oracle = True,
         no_priority_pages = 0, priority_pages = 1, no_father_pages = 0\<rparr>"
  let ?F2 = "\<lparr>qf_queue = UpdatingQ pq_init, qf_oracle = True,
         no_priority_pages = 0, priority_pages = 0, no_father_pages = 0\<rparr>"
  let ?S3 = "\<lparr>pq_queue = [(- 1, ''s'')],
            pq_deleted = [''s'' \<mapsto> (- 1, 0)], pq_num_enqueued = 1, pq_num_deleted = 0\<rparr>"
  let ?F3 = "\<lparr>qf_queue = UpdatingQ ?S3,
         qf_oracle = True, no_priority_pages = 0, priority_pages = 1, no_father_pages = 1\<rparr>"
  have hp: "is_heap (hq_queue \<lparr>hq_queue = [(- 0.5 :: real, ''a'')]\<rparr>)"
    by (simp add: is_heap_def)
  have he: "is_heap (pq_queue pq_init)" by (simp add: is_heap_def pq_init_def)
  have q1: "qf_queue ?F1 = HeapQ \<lparr>hq_queue = [(- 0.5, ''a'')]\<rparr>" by simp
  have q2: "qf_queue ?F2 = UpdatingQ pq_init \<and> pq_deleted pq_init ''s'' = None"
    by (simp add: pq_init_def)
  have q3: "qf_queue ?F3 = UpdatingQ ?S3 \<and> pq_deleted ?S3 ''s'' \<noteq> None" by simp
  note t1 = seed_enters_at_max_priority
      [of ?F1 "\<lparr>hq_queue = [(- 0.5, ''a'')]\<rparr>" "''s''" 0 None "Some 0.25",
       THEN conjunct1, THEN mp, OF q1]
  note t2 = seed_enters_at_max_priority
      [of ?F2 _ "''s''" 0 None "Some 0.25" pq_init,
       THEN conjunct2, THEN conjunct1, THEN mp, OF q2]
  note t3 = seed_enters_at_max_priority
      [of ?F3 _ "''s''" 0 None "Some 0.25" ?S3,
       THEN conjunct2, THEN conjunct2, THEN conjunct1, THEN mp, OF q3]
  from t1 obtain fm1 q1' where a1: "populate_frontier_oracle_seed ?F1 ''s'' 0 None (Some 0.25) = Inr fm1"
      "qf_queue fm1 = HeapQ q1'"
      "mset (hq_queue q1') = add_mset (- 1, ''s'') (mset (hq_queue \<lparr>hq_queue = [(- 0.5, ''a'')]\<rparr>))"
      "is_heap (hq_queue \<lparr>hq_queue = [(- 0.5 :: real, ''a'')]\<rparr>) \<longrightarrow> is_heap (hq_queue q1')"
    by blast
  from t2 obtain fm2 s2' where a2: "populate_frontier_oracle_seed ?F2 ''s'' 0 None (Some 0.25) = Inr fm2"
      "qf_queue fm2 = UpdatingQ s2'"
      "mset (pq_queue s2') = add_mset (- 1, ''s'') (mset (pq_queue pq_init))"
      "pq_deleted s2' = (pq_deleted pq_init)(''s'' \<mapsto> (- 1, 0))"
    by blast
  have b1: "mset (hq_queue q1') = {#(- 1, ''s''), (- 0.5, ''a'')#}" using a1(3) by simp
  have b2: "is_heap (hq_queue q1')" using a1(4) hp by (rule mp)
  have c1: "mset (pq_queue s2') = {#(- 1, ''s'')#}" using a2(3) by (simp add: pq_init_def)
  have c2: "pq_deleted s2' ''s'' = Some (- 1, 0)" using a2(4) by simp
  show ?thesis using a1(1,2) b1 b2 a2(1,2) c1 c2 t3 by blast
qed

section \<open>Updates in the quality-updating frontier\<close>

text \<open>
  C1 asks that an update be accepted exactly when the new priority is strictly higher than
  the recorded one. The queue that holds ''u'' at priority 5 (the state after
  \<open>put(''u'', 5)\<close> on a new queue) rejects the update to 7: nothing is pushed and the
  table entry stays. It accepts the update to 3: a new entry is pushed, the table records
  3 and the stale count becomes 1. The comparison in \<open>update\<close> is the reverse of the one
  its comment, the tests and \<open>PQueueHeap.update\<close> describe.
\<close>

theorem update_accepts_lower_not_higher:
  "pq_put pq_init ''u'' 5
     = Inr \<lparr>pq_queue = [(- 5, ''u'')], pq_deleted = [''u'' \<mapsto> (- 5, 0)],
            pq_num_enqueued = 1, pq_num_deleted = 0\<rparr>
   \<and> pq_update \<lparr>pq_queue = [(- 5, ''u'')], pq_deleted = [''u'' \<mapsto> (- 5, 0)],
              pq_num_enqueued = 1, pq_num_deleted = 0\<rparr> ''u'' 7
     = Inr (True, \<lparr>pq_queue = [(- 5, ''u'')], pq_deleted = [''u'' \<mapsto> (- 5, 0)],
                   pq_num_enqueued = 1, pq_num_deleted = 0\<rparr>)
   \<and> pq_update \<lparr>pq_queue = [(- 5, ''u'')], pq_deleted = [''u'' \<mapsto> (- 5, 0)],
              pq_num_enqueued = 1, pq_num_deleted = 0\<rparr> ''u'' 3
     = Inr (True, \<lparr>pq_queue = [(- 5, ''u''), (- 3, ''u'')],
                   pq_deleted = [''u'' \<mapsto> (- 3, 1)],
                   pq_num_enqueued = 1, pq_num_deleted = 1\<rparr>)"
  by (simp add: pq_update_def pq_put_def pq_init_def mark_deleted_def external_priority_def
      internal_priority_def MAX_DELETED_THRESHOLD_def heappush_def siftdown_def
      siftdown_loop.simps)

text \<open>
  C5 asks that an update whose candidate is not an improvement return true and leave the
  frontier as it was. In the frontier that tracks ''u'' at priority 5, the update of
  ''u'' with qscore 3 (not higher than 5) returns true but pushes a second heap entry,
  lowers the recorded priority to 3 and counts one stale entry; the update of the
  untracked ''v'' returns false and changes nothing. This is the inverted comparison of
  \<open>PQueuePriorityQueue.update\<close> again.
\<close>

theorem non_improving_update_changes_state:
  "quality_update
     \<lparr>qf_queue = UpdatingQ \<lparr>pq_queue = [(- 5, ''u'')], pq_deleted = [''u'' \<mapsto> (- 5, 0)],
                            pq_num_enqueued = 1, pq_num_deleted = 0\<rparr>,
      qf_oracle = True, no_priority_pages = 0, priority_pages = 1, no_father_pages = 0\<rparr>
     \<lparr>page_id = None, page_url = ''u'', page_docno = None,
      page_metadata = Some [''qscore'' \<mapsto> 3]\<rparr> None
   = Inr (Some True,
     \<lparr>qf_queue = UpdatingQ \<lparr>pq_queue = [(- 5, ''u''), (- 3, ''u'')],
                            pq_deleted = [''u'' \<mapsto> (- 3, 1)],
                            pq_num_enqueued = 1, pq_num_deleted = 1\<rparr>,
      qf_oracle = True, no_priority_pages = 0, priority_pages = 1, no_father_pages = 0\<rparr>)
   \<and> quality_update
     \<lparr>qf_queue = UpdatingQ \<lparr>pq_queue = [(- 5, ''u'')], pq_deleted = [''u'' \<mapsto> (- 5, 0)],
                            pq_num_enqueued = 1, pq_num_deleted = 0\<rparr>,
      qf_oracle = True, no_priority_pages = 0, priority_pages = 1, no_father_pages = 0\<rparr>
     \<lparr>page_id = None, page_url = ''v'', page_docno = None,
      page_metadata = Some [''qscore'' \<mapsto> 3]\<rparr> None
   = Inr (Some False,
     \<lparr>qf_queue = UpdatingQ \<lparr>pq_queue = [(- 5, ''u'')], pq_deleted = [''u'' \<mapsto> (- 5, 0)],
                            pq_num_enqueued = 1, pq_num_deleted = 0\<rparr>,
      qf_oracle = True, no_priority_pages = 0, priority_pages = 1, no_father_pages = 0\<rparr>)"
  by (simp add: quality_update_def get_metadata_def pq_update_def mark_deleted_def
      external_priority_def internal_priority_def MAX_DELETED_THRESHOLD_def heappush_def
      siftdown_def siftdown_loop.simps)

section \<open>Updates in the quality-heap frontier\<close>

lemma heap_update_absent:
  "item \<notin> snd ` set (hq_queue q) \<Longrightarrow> heap_update q item priority = q"
proof -
  assume a: "item \<notin> snd ` set (hq_queue q)"
  have "find (\<lambda>i. snd (hq_queue q ! i) = item) [0 ..< length (hq_queue q)] = None"
    using a by (auto simp: find_None_iff image_iff)
  then show ?thesis by (simp add: heap_update_def)
qed

lemma heap_update_present:
  assumes "distinct (map snd (hq_queue q))" "(old, item) \<in> set (hq_queue q)"
  shows "\<exists>i < length (hq_queue q). hq_queue q ! i = (old, item)
     \<and> heap_update q item priority =
        (if - old < priority
         then q\<lparr>hq_queue := heapify ((hq_queue q)[i := (- priority, item)])\<rparr> else q)"
proof -
  let ?xs = "hq_queue q"
  let ?P = "\<lambda>i. snd (?xs ! i) = item"
  obtain i where i: "i < length ?xs" "?xs ! i = (old, item)"
    using assms(2) unfolding in_set_conv_nth by blast
  have d: "\<forall>a<length (map snd ?xs). \<forall>b<length (map snd ?xs).
      a \<noteq> b \<longrightarrow> map snd ?xs ! a \<noteq> map snd ?xs ! b"
    using assms(1) by (simp only: distinct_conv_nth)
  have uniq: "j = i" if j: "j < length ?xs" "snd (?xs ! j) = item" for j
  proof (rule ccontr)
    assume ne: "j \<noteq> i"
    have "j < length (map snd ?xs)" "i < length (map snd ?xs)" using i j by simp_all
    then have "map snd ?xs ! j \<noteq> map snd ?xs ! i" using d ne by blast
    moreover have "map snd ?xs ! j = map snd ?xs ! i" using i j by simp
    ultimately show False by simp
  qed
  have "\<exists>k<length [0 ..< length ?xs]. ?P ([0 ..< length ?xs] ! k)
      \<and> i = [0 ..< length ?xs] ! k \<and> (\<forall>j<k. \<not> ?P ([0 ..< length ?xs] ! j))"
  proof (intro exI [of _ i] conjI allI impI)
    show "i < length [0 ..< length ?xs]" using i by simp
    show "?P ([0 ..< length ?xs] ! i)" using i by simp
    show "i = [0 ..< length ?xs] ! i" using i by simp
    fix j assume "j < i"
    then have "j < length ?xs" "j \<noteq> i" using i by simp_all
    then have "\<not> ?P j" using uniq by blast
    then show "\<not> ?P ([0 ..< length ?xs] ! j)" using \<open>j < length ?xs\<close> by simp
  qed
  then have f: "find ?P [0 ..< length ?xs] = Some i"
    by (simp only: find_Some_iff)
  have "heap_update q item priority =
        (if - old < priority
         then q\<lparr>hq_queue := heapify (?xs[i := (- priority, item)])\<rparr> else q)"
    using i(2) by (simp add: heap_update_def f external_priority_def internal_priority_def)
  then show ?thesis using i by blast
qed

text \<open>
  C3 as stated fails: in the heap-backed quality frontier that holds ''a'' at 5 and ''u'' at
  2, the update of ''u'' with qscore 9 rewrites the entry of ''u'' and re-heapifies, and the
  next pop returns ''u'' where it would have returned ''a''.
\<close>

theorem heap_update_is_not_a_noop:
  "quality_update
     \<lparr>qf_queue = HeapQ \<lparr>hq_queue = [(- 5, ''a''), (- 2, ''u'')]\<rparr>,
      qf_oracle = True, no_priority_pages = 0, priority_pages = 2, no_father_pages = 0\<rparr>
     \<lparr>page_id = None, page_url = ''u'', page_docno = None,
      page_metadata = Some [''qscore'' \<mapsto> 9]\<rparr> None
   = Inr (None,
     \<lparr>qf_queue = HeapQ \<lparr>hq_queue = [(- 9, ''u''), (- 5, ''a'')]\<rparr>,
      qf_oracle = True, no_priority_pages = 0, priority_pages = 2, no_father_pages = 0\<rparr>)
   \<and> quality_pop
     \<lparr>qf_queue = HeapQ \<lparr>hq_queue = [(- 5, ''a''), (- 2, ''u'')]\<rparr>,
      qf_oracle = True, no_priority_pages = 0, priority_pages = 2, no_father_pages = 0\<rparr>
   = Inr (''a'',
     \<lparr>qf_queue = HeapQ \<lparr>hq_queue = [(- 2, ''u'')]\<rparr>,
      qf_oracle = True, no_priority_pages = 0, priority_pages = 2, no_father_pages = 0\<rparr>)
   \<and> quality_pop
     \<lparr>qf_queue = HeapQ \<lparr>hq_queue = [(- 9, ''u''), (- 5, ''a'')]\<rparr>,
      qf_oracle = True, no_priority_pages = 0, priority_pages = 2, no_father_pages = 0\<rparr>
   = Inr (''u'',
     \<lparr>qf_queue = HeapQ \<lparr>hq_queue = [(- 5, ''a'')]\<rparr>,
      qf_oracle = True, no_priority_pages = 0, priority_pages = 2, no_father_pages = 0\<rparr>)"
  by (simp add: quality_update_def get_metadata_def heap_update_def quality_pop_def
      heap_enqueued_def heap_get_def heappop_def siftup_def siftup_loop.simps heapify_def
      external_priority_def internal_priority_def siftdown_def siftdown_loop.simps
      smaller_child_def)

text \<open>
  C3, amended. In the heap-backed quality frontier in oracle mode, for a page that carries
  metadata and a heap whose URLs are pairwise distinct, \<open>update(page, parent)\<close> returns
  None and never changes \<open>enqueued()\<close>. It leaves the heap as it was when the page's
  URL is not in the heap or the candidate priority (the qscore, or \<open>MIN_PRIORITY\<close> when
  missing) is not strictly higher than the URL's priority. When it is strictly higher, the
  list after the update holds the same entries except that the URL's entry carries the
  candidate, and it is a heap again: \<open>heapify\<close> has restored the heap property.
\<close>

theorem heap_frontier_update_raises_priority:
  assumes "qf_queue fm = HeapQ q" "qf_oracle fm" "page_metadata page = Some m"
    and "distinct (map snd (hq_queue q))"
  shows "\<exists>q'. quality_update fm page father = Inr (None, fm\<lparr>qf_queue := HeapQ q'\<rparr>)
     \<and> q' = heap_update q (page_url page)
              (case m ''qscore'' of None \<Rightarrow> MIN_PRIORITY | Some p \<Rightarrow> p)
     \<and> quality_enqueued (fm\<lparr>qf_queue := HeapQ q'\<rparr>) = quality_enqueued fm
     \<and> (page_url page \<notin> snd ` set (hq_queue q) \<longrightarrow> q' = q)
     \<and> (\<forall>old. (old, page_url page) \<in> set (hq_queue q) \<longrightarrow>
          ((case m ''qscore'' of None \<Rightarrow> MIN_PRIORITY | Some p \<Rightarrow> p) \<le> - old \<longrightarrow> q' = q)
          \<and> (- old < (case m ''qscore'' of None \<Rightarrow> MIN_PRIORITY | Some p \<Rightarrow> p) \<longrightarrow>
               mset (hq_queue q') =
                 add_mset (- (case m ''qscore'' of None \<Rightarrow> MIN_PRIORITY | Some p \<Rightarrow> p),
                           page_url page)
                   (mset (hq_queue q) - {#(old, page_url page)#})
               \<and> is_heap (hq_queue q')))"
proof -
  let ?c = "case m ''qscore'' of None \<Rightarrow> MIN_PRIORITY | Some p \<Rightarrow> p"
  let ?q' = "heap_update q (page_url page) ?c"
  have upd: "quality_update fm page father = Inr (None, fm\<lparr>qf_queue := HeapQ ?q'\<rparr>)"
    using assms(1-3) by (simp add: quality_update_def get_metadata_def)
  have pres: "\<And>old. (old, page_url page) \<in> set (hq_queue q) \<Longrightarrow>
      (?c \<le> - old \<longrightarrow> ?q' = q)
      \<and> (- old < ?c \<longrightarrow> mset (hq_queue ?q') =
            add_mset (- ?c, page_url page) (mset (hq_queue q) - {#(old, page_url page)#})
          \<and> is_heap (hq_queue ?q'))"
  proof -
    fix old assume mem: "(old, page_url page) \<in> set (hq_queue q)"
    obtain i where i: "i < length (hq_queue q)" "hq_queue q ! i = (old, page_url page)"
      "heap_update q (page_url page) ?c =
        (if - old < ?c
         then q\<lparr>hq_queue := heapify ((hq_queue q)[i := (- ?c, page_url page)])\<rparr> else q)"
      using heap_update_present [OF assms(4) mem, of ?c] by blast
    have "mset ((hq_queue q)[i := (- ?c, page_url page)]) =
        add_mset (- ?c, page_url page) (mset (hq_queue q) - {#(old, page_url page)#})"
      using i(1,2) by (simp add: mset_update)
    then show "(?c \<le> - old \<longrightarrow> ?q' = q)
      \<and> (- old < ?c \<longrightarrow> mset (hq_queue ?q') =
            add_mset (- ?c, page_url page) (mset (hq_queue q) - {#(old, page_url page)#})
          \<and> is_heap (hq_queue ?q'))"
      using i(3) by (simp add: mset_heapify is_heap_heapify)
  qed
  have len: "length (hq_queue ?q') = length (hq_queue q)"
    by (simp add: heap_update_def length_heapify split: option.splits)
  have size: "quality_enqueued (fm\<lparr>qf_queue := HeapQ ?q'\<rparr>) = quality_enqueued fm"
    using assms(1) len by (simp add: quality_enqueued_def heap_enqueued_def)
  have absent: "page_url page \<notin> snd ` set (hq_queue q) \<longrightarrow> ?q' = q"
    using heap_update_absent [of "page_url page" q ?c] by (rule impI)
  show ?thesis
  proof (intro exI [of _ ?q'] conjI allI impI)
    show "quality_update fm page father = Inr (None, fm\<lparr>qf_queue := HeapQ ?q'\<rparr>)"
      by (rule upd)
    show "?q' = ?q'" by (rule refl)
    show "quality_enqueued (fm\<lparr>qf_queue := HeapQ ?q'\<rparr>) = quality_enqueued fm"
      by (rule size)
    show "?q' = q" if "page_url page \<notin> snd ` set (hq_queue q)"
      using absent that by (rule mp)
    show "?q' = q" if "(old, page_url page) \<in> set (hq_queue q)" "?c \<le> - old" for old
      using pres [OF that(1)] that(2) by (elim conjE) (rule mp)
    show "mset (hq_queue ?q') =
        add_mset (- ?c, page_url page) (mset (hq_queue q) - {#(old, page_url page)#})"
      if "(old, page_url page) \<in> set (hq_queue q)" "- old < ?c" for old
      using pres [OF that(1)] that(2) by blast
    show "is_heap (hq_queue ?q')"
      if "(old, page_url page) \<in> set (hq_queue q)" "- old < ?c" for old
      using pres [OF that(1)] that(2) by blast
  qed
qed

theorem heap_frontier_update_raises_priority_witness:
  "quality_update
     \<lparr>qf_queue = HeapQ \<lparr>hq_queue = [(- 5, ''a''), (- 2, ''u'')]\<rparr>,
      qf_oracle = True, no_priority_pages = 0, priority_pages = 2, no_father_pages = 0\<rparr>
     \<lparr>page_id = None, page_url = ''u'', page_docno = None,
      page_metadata = Some [''qscore'' \<mapsto> 9]\<rparr> None
   = Inr (None,
     \<lparr>qf_queue = HeapQ \<lparr>hq_queue = [(- 5, ''a''), (- 2, ''u'')]\<rparr>,
      qf_oracle = True, no_priority_pages = 0, priority_pages = 2, no_father_pages = 0\<rparr>\<lparr>qf_queue := HeapQ (heap_update \<lparr>hq_queue = [(- 5, ''a''), (- 2, ''u'')]\<rparr> ''u'' 9)\<rparr>)
   \<and> mset (hq_queue (heap_update \<lparr>hq_queue = [(- 5, ''a''), (- 2, ''u'')]\<rparr> ''u'' 9))
       = {#(- 9, ''u''), (- 5, ''a'')#}
   \<and> is_heap (hq_queue (heap_update \<lparr>hq_queue = [(- 5, ''a''), (- 2, ''u'')]\<rparr> ''u'' 9))"
  using heap_frontier_update_raises_priority
    [of "\<lparr>qf_queue = HeapQ \<lparr>hq_queue = [(- 5, ''a''), (- 2, ''u'')]\<rparr>,
      qf_oracle = True, no_priority_pages = 0, priority_pages = 2, no_father_pages = 0\<rparr>"
        "\<lparr>hq_queue = [(- 5, ''a''), (- 2, ''u'')]\<rparr>"
        "\<lparr>page_id = None, page_url = ''u'', page_docno = None,
      page_metadata = Some [''qscore'' \<mapsto> 9]\<rparr>"
        "[''qscore'' \<mapsto> 9]" None]
  by auto

section \<open>The size of a frontier\<close>

lemma pq_get_size:
  "pq_get s = Inr (r, s') \<Longrightarrow> pq_num_enqueued s' = pq_num_enqueued s - 1"
proof (induction s arbitrary: r s' rule: pq_get.induct)
  case (1 s)
  from "1.prems" obtain internal item rest where
    pop: "heappop (pq_queue s) = Some ((internal, item), rest)"
    by (subst (asm) pq_get.simps) (auto split: option.splits)
  from "1.prems" pop obtain mdi dc where del: "pq_deleted s item = Some (mdi, dc)"
    by (subst (asm) pq_get.simps) (auto split: option.splits)
  show ?case
  proof (cases "external_priority internal > external_priority mdi")
    case True
    let ?s1 = "s\<lparr>pq_queue := rest,
        pq_deleted := (if dc - 1 < 0 then (pq_deleted s)(item := None)
                       else (pq_deleted s)(item \<mapsto>
                              (internal_priority (external_priority mdi), dc - 1))),
        pq_num_deleted := pq_num_deleted s - 1\<rparr>"
    have "pq_get s = pq_get ?s1"
      using pop del True by (subst pq_get.simps) (simp add: Let_def)
    then have "pq_get ?s1 = Inr (r, s')" using "1.prems" by simp
    then have "pq_num_enqueued s' = pq_num_enqueued ?s1 - 1"
      using "1.IH" [OF pop refl refl del refl refl refl refl True] by simp
    then show ?thesis by simp
  next
    case False
    then show ?thesis
      using "1.prems" pop del
      by (subst (asm) pq_get.simps) (auto simp: Let_def)
  qed
qed

lemma mark_deleted_size:
  "mark_deleted s item p = Inr s' \<Longrightarrow> pq_num_enqueued s' = pq_num_enqueued s"
  by (auto simp: mark_deleted_def split: option.splits if_splits)

lemma cleanup_deleted_size:
  "cleanup_deleted s = Inr s' \<Longrightarrow> pq_num_enqueued s' = pq_num_enqueued s"
  by (auto simp: cleanup_deleted_def split: sum.splits)

lemma pq_update_size:
  "pq_update s item p = Inr (b, s') \<Longrightarrow> pq_num_enqueued s' = pq_num_enqueued s"
  by (auto simp: pq_update_def split: option.splits sum.splits if_splits
      dest!: mark_deleted_size cleanup_deleted_size)


lemma queue_put_size:
  "queue_put q item p = Inr q' \<Longrightarrow> queue_enqueued q' = queue_enqueued q + 1"
  by (cases q) (auto simp: map_sum_id_Inr heap_put_def heap_enqueued_def pq_put_def
      pq_enqueued_def split: if_splits)

lemma queue_get_size:
  "queue_get q = Inr (r, q') \<Longrightarrow> queue_enqueued q' = queue_enqueued q - 1"
proof (cases q)
  case (HeapQ h)
  assume "queue_get q = Inr (r, q')"
  then show ?thesis using HeapQ
    by (auto simp: map_sum_id_Inr heap_get_def heap_enqueued_def
        split: option.splits prod.splits dest!: length_heappop)
next
  case (UpdatingQ s)
  assume "queue_get q = Inr (r, q')"
  then show ?thesis using UpdatingQ
    by (auto simp: map_sum_id_Inr pq_enqueued_def dest!: pq_get_size)
qed

lemma heap_update_length: "length (hq_queue (heap_update h item p)) = length (hq_queue h)"
  by (simp add: heap_update_def length_heapify split: option.splits)

lemma queue_update_size:
  "queue_update q item p = Inr (b, q') \<Longrightarrow> queue_enqueued q' = queue_enqueued q"
proof (cases q)
  case (HeapQ h)
  assume "queue_update q item p = Inr (b, q')"
  then show ?thesis using HeapQ by (auto simp: heap_enqueued_def heap_update_length)
next
  case (UpdatingQ s)
  assume "queue_update q item p = Inr (b, q')"
  then show ?thesis using UpdatingQ
    by (auto simp: map_sum_id_Inr pq_enqueued_def dest!: pq_update_size)
qed

lemma quality_add_size:
  "quality_add fm page father = Inr fm' \<Longrightarrow> quality_enqueued fm' = quality_enqueued fm + 1"
  by (auto simp: quality_add_def quality_add_with_max_priority_def quality_enqueued_def
      split: option.splits sum.splits if_splits dest!: queue_put_size)

lemma quality_add_max_size:
  "quality_add_with_max_priority fm url docid = Inr fm' \<Longrightarrow>
   quality_enqueued fm' = quality_enqueued fm + 1"
  by (auto simp: quality_add_with_max_priority_def quality_enqueued_def
      split: sum.splits dest!: queue_put_size)

lemma quality_update_size:
  "quality_update fm page father = Inr (b, fm') \<Longrightarrow> quality_enqueued fm' = quality_enqueued fm"
  by (auto simp: quality_update_def quality_enqueued_def
      split: sum.splits prod.splits dest!: queue_update_size)

lemma quality_pop_size:
  "quality_pop fm = Inr (url, fm') \<Longrightarrow> quality_enqueued fm' = quality_enqueued fm - 1"
  by (auto simp: quality_pop_def quality_enqueued_def
      split: sum.splits prod.splits if_splits dest!: queue_get_size)

lemma int_length_pred: "xs \<noteq> [] \<Longrightarrow> int (length xs - Suc 0) = int (length xs) - 1"
  by (cases xs) simp_all

lemma frontier_step_size:
  "frontier_step f op = Inr f' \<Longrightarrow> enqueued f' = enqueued f + size_change op"
proof (cases op)
  case (Add page father)
  assume "frontier_step f op = Inr f'"
  then show ?thesis using Add
    by (cases f) (auto simp: map_sum_id_Inr dest!: quality_add_size)
next
  case (AddSeed url docid)
  assume "frontier_step f op = Inr f'"
  then show ?thesis using AddSeed
    by (cases f) (auto simp: map_sum_id_Inr dest!: quality_add_max_size)
next
  case (Update page father)
  assume "frontier_step f op = Inr f'"
  then show ?thesis using Update
    by (cases f) (auto simp: map_sum_id_Inr dest!: quality_update_size)
next
  case (Pop r)
  assume "frontier_step f op = Inr f'"
  then show ?thesis using Pop
    by (cases f)
       (auto simp: map_sum_id_Inr random_pop_def bfs_pop_def dfs_pop_def Let_def int_length_pred
         dest!: quality_pop_size split: if_splits)
qed

lemma run_ops_size:
  "run_ops f0 ops = Inr f \<Longrightarrow>
   enqueued f = enqueued f0 + int (length (added_urls ops)) - int (num_popped ops)"
proof (induction ops arbitrary: f0)
  case Nil
  then show ?case by simp
next
  case (Cons op ops)
  then obtain f1 where st: "frontier_step f0 op = Inr f1" and rest: "run_ops f1 ops = Inr f"
    by (auto split: sum.splits)
  have "enqueued f = enqueued f1 + int (length (added_urls ops)) - int (num_popped ops)"
    using Cons.IH [OF rest] .
  moreover have "enqueued f1 = enqueued f0 + size_change op"
    using frontier_step_size [OF st] .
  ultimately show ?case by (cases op) simp_all
qed

lemma init_frontier_empty: "init_frontier_manager t updates = Inr f0 \<Longrightarrow> enqueued f0 = 0"
  by (auto simp: map_sum_id_Inr init_frontier_manager_def quality_init_def quality_enqueued_def
      heap_enqueued_def heap_init_def pq_enqueued_def pq_init_def split: if_splits)

text \<open>
  C2. For every frontier policy (random, BFS, DFS, quality-heap, quality-updating) and
  every sequence of add, add-seed, update and pop calls that all succeed, with pairwise
  distinct added URLs, started on the new frontier: \<open>enqueued()\<close> is the number of
  distinct URLs added minus the number of pops. In the updating queue an update, accepted
  or not, leaves the size as it is, and a pop lowers it by exactly one however many stale
  entries it discards.
\<close>

theorem size_is_adds_minus_pops:
  assumes "init_frontier_manager frontier_type updates = Inr f0"
    and "run_ops f0 ops = Inr f"
    and "distinct (added_urls ops)"
  shows "enqueued f = int (card (set (added_urls ops))) - int (num_popped ops)
     \<and> (\<forall>s item p b s'. pq_update s item p = Inr (b, s') \<longrightarrow> pq_enqueued s' = pq_enqueued s)
     \<and> (\<forall>s r s'. pq_get s = Inr (r, s') \<longrightarrow> pq_enqueued s' = pq_enqueued s - 1)"
  using run_ops_size [OF assms(2)] init_frontier_empty [OF assms(1)]
    distinct_card [OF assms(3)] pq_update_size pq_get_size
  by (simp add: pq_enqueued_def)


theorem size_is_adds_minus_pops_witness:
  "init_frontier_manager ''oracle-quality'' True
     = Inr (QualityF \<lparr>qf_queue = UpdatingQ pq_init, qf_oracle = True, no_priority_pages = 0,
                      priority_pages = 0, no_father_pages = 0\<rparr>)
   \<and> (\<exists>f. run_ops (QualityF \<lparr>qf_queue = UpdatingQ pq_init, qf_oracle = True,
                       no_priority_pages = 0, priority_pages = 0, no_father_pages = 0\<rparr>)
          [AddSeed ''s'' 0,
           Add \<lparr>page_id = None, page_url = ''u'', page_docno = None,
                page_metadata = Some [''qscore'' \<mapsto> 5]\<rparr>
               (Some \<lparr>page_id = None, page_url = ''s'', page_docno = None,
                      page_metadata = Some Map.empty\<rparr>),
           Update \<lparr>page_id = None, page_url = ''u'', page_docno = None,
                   page_metadata = Some [''qscore'' \<mapsto> 3]\<rparr> None,
           Pop 0] = Inr f
        \<and> enqueued f = 1)"
proof -
  let ?f0 = "QualityF \<lparr>qf_queue = UpdatingQ pq_init, qf_oracle = True,
                       no_priority_pages = 0, priority_pages = 0, no_father_pages = 0\<rparr>"
  let ?ops = "[AddSeed ''s'' 0,
           Add \<lparr>page_id = None, page_url = ''u'', page_docno = None,
                page_metadata = Some [''qscore'' \<mapsto> 5]\<rparr>
               (Some \<lparr>page_id = None, page_url = ''s'', page_docno = None,
                      page_metadata = Some Map.empty\<rparr>),
           Update \<lparr>page_id = None, page_url = ''u'', page_docno = None,
                   page_metadata = Some [''qscore'' \<mapsto> 3]\<rparr> None,
           Pop 0]"
  have init: "init_frontier_manager ''oracle-quality'' True = Inr ?f0"
    by (simp add: init_frontier_manager_def quality_init_def)
  have run: "\<exists>f. run_ops ?f0 ?ops = Inr f"
    by (simp add: quality_add_with_max_priority_def quality_add_def quality_update_def
        quality_pop_def get_metadata_def pq_put_def pq_init_def pq_update_def
        mark_deleted_def pq_get.simps pq_enqueued_def MAX_PRIORITY_def
        MAX_DELETED_THRESHOLD_def external_priority_def internal_priority_def
        heappush_def heappop_def siftdown_def siftdown_loop.simps siftup_def
        siftup_loop.simps smaller_child_def)
  then obtain f where f: "run_ops ?f0 ?ops = Inr f" ..
  have d: "distinct (added_urls ?ops)" by simp
  have "enqueued f = 1"
    using size_is_adds_minus_pops [OF init f d] by simp
  then show ?thesis using init f by blast
qed

section \<open>Pop order of the quality-heap frontier\<close>

lemma sort_heap_root:
  assumes "mset h = add_mset x (mset rest)" "\<forall>y \<in> set h. x \<le> y"
  shows "sort h = x # sort rest"
proof (rule properties_for_sort)
  show "mset (x # sort rest) = mset h" using assms(1) by simp
  have "set_mset (mset h) = insert x (set_mset (mset rest))"
    using assms(1) by simp
  then have "set rest \<subseteq> set h" by auto
  then show "sorted (x # sort rest)" using assms(2) by auto
qed

lemma quality_drain_heap:
  "qf_queue fm = HeapQ h \<Longrightarrow> is_heap (hq_queue h) \<Longrightarrow>
   quality_drain fm = map snd (sort (hq_queue h))"
proof (induction "length (hq_queue h)" arbitrary: fm h)
  case 0
  then have "quality_pop fm = Inl IndexError"
    by (simp add: quality_pop_def heap_enqueued_def)
  then show ?case using 0 by (subst quality_drain.simps) simp
next
  case (Suc n)
  then have ne: "hq_queue h \<noteq> []" by auto
  obtain rest where pop: "heappop (hq_queue h) = Some (hd (hq_queue h), rest)"
    and hr: "is_heap rest"
    and ms: "mset (hq_queue h) = add_mset (hd (hq_queue h)) (mset rest)"
    and least: "\<forall>y \<in> set (hq_queue h). hd (hq_queue h) \<le> y"
    using heappop_correct [OF Suc.prems(2) ne] by blast
  let ?fm' = "fm\<lparr>qf_queue := HeapQ (h\<lparr>hq_queue := rest\<rparr>)\<rparr>"
  have qp: "quality_pop fm = Inr (snd (hd (hq_queue h)), ?fm')"
    using Suc.prems(1) ne pop
    by (simp add: quality_pop_def heap_enqueued_def heap_get_def split: prod.splits)
  have len: "n = length (hq_queue (h\<lparr>hq_queue := rest\<rparr>))"
    using length_heappop [OF pop] Suc(2) by simp
  have ih: "quality_drain ?fm' = map snd (sort rest)"
    using Suc(1) [OF len, of ?fm'] hr by simp
  have "quality_drain fm = snd (hd (hq_queue h)) # quality_drain ?fm'"
    using qp by (subst quality_drain.simps) simp
  then show ?case using ih sort_heap_root [OF ms least] by simp
qed

lemma quality_add_heap:
  assumes "qf_queue fm = HeapQ q" "qf_oracle fm" "father \<noteq> None \<longrightarrow> page_metadata page \<noteq> None"
  shows "\<exists>fm'. quality_add fm page father = Inr fm'
     \<and> qf_queue fm' = HeapQ (heap_put q (page_url page) (spec_priority page father))
     \<and> qf_oracle fm'"
  using assms
  by (auto simp: quality_add_def quality_add_with_max_priority_def spec_priority_def
      get_metadata_def split: option.splits)

lemma sorted_earlier:
  assumes "sorted l" "e1 \<in> set l" "e2 \<in> set l" "snd e1 \<noteq> snd e2"
    and "e1 < e2" and only: "\<forall>e \<in> set l. snd e = snd e2 \<longrightarrow> e = e2"
  shows "\<exists>xs ys zs. map snd l = xs @ snd e1 # ys @ snd e2 # zs
     \<and> snd e2 \<notin> set xs \<and> snd e2 \<notin> set ys"
proof -
  obtain as bs where l: "l = as @ e2 # bs" and nas: "e2 \<notin> set as"
    using split_list_first [OF assms(3)] by blast
  have e1ne: "e1 \<noteq> e2" using assms(4) by auto
  have "e1 \<notin> set bs"
  proof
    assume "e1 \<in> set bs"
    then have "e2 \<le> e1" using assms(1) l by (auto simp: sorted_append)
    then show False using assms(5) by simp
  qed
  then have "e1 \<in> set as" using assms(2) l e1ne by auto
  then obtain cs ds where as: "as = cs @ e1 # ds" using split_list by fastforce
  have no: "\<forall>e \<in> set as. snd e \<noteq> snd e2"
    using only nas l by auto
  have "map snd l = map snd cs @ snd e1 # map snd ds @ snd e2 # map snd bs"
    using l as by simp
  moreover have "snd e2 \<notin> set (map snd cs)"
  proof
    assume "snd e2 \<in> set (map snd cs)"
    then obtain e where "e \<in> set cs" "snd e = snd e2" by auto
    then show False using no as by simp
  qed
  moreover have "snd e2 \<notin> set (map snd ds)"
  proof
    assume "snd e2 \<in> set (map snd ds)"
    then obtain e where "e \<in> set ds" "snd e = snd e2" by auto
    then show False using no as by simp
  qed
  ultimately show ?thesis by blast
qed

lemma sorted_before:
  assumes "sorted l" "e1 \<in> set l" "e2 \<in> set l" "e1 < e2"
  shows "\<exists>xs ys zs. map snd l = xs @ snd e1 # ys @ snd e2 # zs"
proof -
  obtain as bs where l: "l = as @ e2 # bs"
    using split_list [OF assms(3)] by blast
  have e1ne: "e1 \<noteq> e2" using assms(4) by auto
  have "e1 \<notin> set bs"
  proof
    assume "e1 \<in> set bs"
    then have "e2 \<le> e1" using assms(1) l by (auto simp: sorted_append)
    then show False using assms(4) by simp
  qed
  then have "e1 \<in> set as" using assms(2) l e1ne by auto
  then obtain cs ds where as: "as = cs @ e1 # ds" using split_list by fastforce
  have "map snd l = map snd cs @ snd e1 # map snd ds @ snd e2 # map snd bs"
    using l as by simp
  then show ?thesis by blast
qed

text \<open>
  C4. In the quality-heap frontier (oracle mode, pages carrying metadata), \<open>add\<close> of a page
  with a parent puts the page's URL into the heap at the page's \<open>qscore\<close>, or at
  \<open>MIN_PRIORITY = -50\<close> when the metadata has no \<open>qscore\<close>; \<open>add\<close> without a parent (a
  seed) puts it at \<open>MAX_PRIORITY = 1\<close>. After two consecutive adds of \<open>u1\<close> at priority
  \<open>p1\<close> and then \<open>u2\<close> at priority \<open>p2 < p1\<close>, with \<open>u1 \<noteq> u2\<close>, popping the frontier until
  it is empty returns \<open>u1\<close> before \<open>u2\<close>; when \<open>u2\<close> was not already enqueued, \<open>u1\<close> is
  returned before every occurrence of \<open>u2\<close>.
\<close>

theorem quality_heap_pops_higher_priority_first:
  assumes "qf_queue fm = HeapQ q" "qf_oracle fm" "is_heap (hq_queue q)"
    and "father1 \<noteq> None \<longrightarrow> page_metadata page1 \<noteq> None"
    and "father2 \<noteq> None \<longrightarrow> page_metadata page2 \<noteq> None"
    and "spec_priority page1 father1 > spec_priority page2 father2"
    and "page_url page1 \<noteq> page_url page2"
  shows "MAX_PRIORITY = 1 \<and> MIN_PRIORITY = - 50
     \<and> (\<exists>fm1 fm2 q1 q2. quality_add fm page1 father1 = Inr fm1
          \<and> qf_queue fm1 = HeapQ q1
          \<and> mset (hq_queue q1) =
              add_mset (- spec_priority page1 father1, page_url page1) (mset (hq_queue q))
          \<and> quality_add fm1 page2 father2 = Inr fm2
          \<and> qf_queue fm2 = HeapQ q2
          \<and> mset (hq_queue q2) =
              add_mset (- spec_priority page2 father2, page_url page2) (mset (hq_queue q1))
          \<and> (\<exists>xs ys zs. quality_drain fm2 = xs @ page_url page1 # ys @ page_url page2 # zs
                \<and> (page_url page2 \<notin> snd ` set (hq_queue q)
                     \<longrightarrow> page_url page2 \<notin> set xs \<and> page_url page2 \<notin> set ys)))"
proof -
  let ?u1 = "page_url page1" and ?u2 = "page_url page2"
  let ?p1 = "spec_priority page1 father1" and ?p2 = "spec_priority page2 father2"
  let ?q1 = "heap_put q ?u1 ?p1"
  let ?q2 = "heap_put ?q1 ?u2 ?p2"
  obtain fm1 where f1: "quality_add fm page1 father1 = Inr fm1" "qf_queue fm1 = HeapQ ?q1"
      "qf_oracle fm1"
    using quality_add_heap [OF assms(1,2,4)] by blast
  obtain fm2 where f2: "quality_add fm1 page2 father2 = Inr fm2" "qf_queue fm2 = HeapQ ?q2"
    using quality_add_heap [OF f1(2,3) assms(5)] by blast
  have h2: "is_heap (hq_queue ?q2)"
    using assms(3) by (simp add: heap_put_def is_heap_heappush)
  have ms1: "mset (hq_queue ?q1) = add_mset (- ?p1, ?u1) (mset (hq_queue q))"
    by (simp add: heap_put_def mset_heappush internal_priority_def)
  have ms2: "mset (hq_queue ?q2) = add_mset (- ?p2, ?u2) (mset (hq_queue ?q1))"
    by (simp add: heap_put_def mset_heappush internal_priority_def)
  have ms: "mset (hq_queue ?q2) =
      add_mset (- ?p2, ?u2) (add_mset (- ?p1, ?u1) (mset (hq_queue q)))"
    by (simp add: heap_put_def mset_heappush internal_priority_def)
  have dr: "quality_drain fm2 = map snd (sort (hq_queue ?q2))"
    using quality_drain_heap [OF f2(2) h2] .
  let ?l = "sort (hq_queue ?q2)"
  have setl: "set ?l = insert (- ?p2, ?u2) (insert (- ?p1, ?u1) (set (hq_queue q)))"
  proof -
    have "set ?l = set_mset (mset (hq_queue ?q2))" by simp
    also have "\<dots> = set_mset (add_mset (- ?p2, ?u2) (add_mset (- ?p1, ?u1) (mset (hq_queue q))))"
      by (simp only: ms)
    also have "\<dots> = insert (- ?p2, ?u2) (insert (- ?p1, ?u1) (set (hq_queue q)))"
      by simp
    finally show ?thesis .
  qed
  have sl: "sorted ?l" by simp
  have i1: "(- ?p1, ?u1) \<in> set ?l" using setl by simp
  have i2: "(- ?p2, ?u2) \<in> set ?l" using setl by simp
  have lt: "(- ?p1, ?u1) < (- ?p2, ?u2)" using assms(6) by simp
  have order: "\<exists>xs ys zs. quality_drain fm2 = xs @ ?u1 # ys @ ?u2 # zs
           \<and> (?u2 \<notin> snd ` set (hq_queue q) \<longrightarrow> ?u2 \<notin> set xs \<and> ?u2 \<notin> set ys)"
  proof (cases "?u2 \<in> snd ` set (hq_queue q)")
    case True
    have "\<exists>xs ys zs. map snd ?l = xs @ snd (- ?p1, ?u1) # ys @ snd (- ?p2, ?u2) # zs"
      using sorted_before [OF sl i1 i2 lt] .
    then obtain xs ys zs where "map snd ?l = xs @ ?u1 # ys @ ?u2 # zs"
      by auto
    then show ?thesis unfolding dr using True by blast
  next
    case False
    have "\<exists>xs ys zs. map snd ?l = xs @ snd (- ?p1, ?u1) # ys @ snd (- ?p2, ?u2) # zs
       \<and> snd (- ?p2, ?u2) \<notin> set xs \<and> snd (- ?p2, ?u2) \<notin> set ys"
    proof (rule sorted_earlier [OF sl i1 i2 _ lt])
      show "snd (- ?p1, ?u1) \<noteq> snd (- ?p2, ?u2)" using assms(7) by simp
      show "\<forall>e \<in> set ?l. snd e = snd (- ?p2, ?u2) \<longrightarrow> e = (- ?p2, ?u2)"
        using setl assms(7) False by (auto simp: image_iff)
    qed
    then have "\<exists>xs ys zs. map snd ?l = xs @ ?u1 # ys @ ?u2 # zs
       \<and> ?u2 \<notin> set xs \<and> ?u2 \<notin> set ys"
      by simp
    then obtain xs ys zs where "map snd ?l = xs @ ?u1 # ys @ ?u2 # zs"
      "?u2 \<notin> set xs" "?u2 \<notin> set ys" by blast
    then show ?thesis unfolding dr by blast
  qed
  have c: "MAX_PRIORITY = 1 \<and> MIN_PRIORITY = - 50"
    by (simp add: MAX_PRIORITY_def MIN_PRIORITY_def)
  show ?thesis using c f1(1,2) f2 ms1 ms2 order by blast
qed

theorem quality_heap_pops_higher_priority_first_witness:
  "(\<exists>fm1 fm2.
      quality_add
        \<lparr>qf_queue = HeapQ \<lparr>hq_queue = [(- 1, ''S'')]\<rparr>, qf_oracle = True,
         no_priority_pages = 0, priority_pages = 1, no_father_pages = 1\<rparr>
        \<lparr>page_id = None, page_url = ''X'', page_docno = None,
         page_metadata = Some [''qscore'' \<mapsto> 0.9]\<rparr>
        (Some \<lparr>page_id = None, page_url = ''S'', page_docno = None,
               page_metadata = Some Map.empty\<rparr>) = Inr fm1
    \<and> quality_add fm1
        \<lparr>page_id = None, page_url = ''Y'', page_docno = None,
         page_metadata = Some Map.empty\<rparr>
        (Some \<lparr>page_id = None, page_url = ''S'', page_docno = None,
               page_metadata = Some Map.empty\<rparr>) = Inr fm2
    \<and> (\<exists>xs ys zs. quality_drain fm2 = xs @ ''X'' # ys @ ''Y'' # zs
          \<and> ''Y'' \<notin> set xs \<and> ''Y'' \<notin> set ys))
   \<and> quality_drain
        \<lparr>qf_queue = HeapQ \<lparr>hq_queue = [(- 1, ''S''), (- 0.9, ''X''), (50, ''Y'')]\<rparr>,
         qf_oracle = True, no_priority_pages = 1, priority_pages = 2, no_father_pages = 1\<rparr>
       = [''S'', ''X'', ''Y'']"
proof -
  let ?fm = "\<lparr>qf_queue = HeapQ \<lparr>hq_queue = [(- 1, ''S'')]\<rparr>, qf_oracle = True,
         no_priority_pages = 0, priority_pages = 1, no_father_pages = 1\<rparr>"
  let ?q = "\<lparr>hq_queue = [(- 1 :: real, ''S'')]\<rparr>"
  let ?S = "\<lparr>page_id = None, page_url = ''S'', page_docno = None,
               page_metadata = Some Map.empty\<rparr>"
  let ?X = "\<lparr>page_id = None, page_url = ''X'', page_docno = None,
         page_metadata = Some [''qscore'' \<mapsto> 0.9]\<rparr>"
  let ?Y = "\<lparr>page_id = None, page_url = ''Y'', page_docno = None,
         page_metadata = Some Map.empty\<rparr>"
  have a1: "qf_queue ?fm = HeapQ ?q" by simp
  have a2: "qf_oracle ?fm" by simp
  have a3: "is_heap (hq_queue ?q)" by (simp add: is_heap_def)
  have a4: "Some ?S \<noteq> None \<longrightarrow> page_metadata ?X \<noteq> None" by simp
  have a5: "Some ?S \<noteq> None \<longrightarrow> page_metadata ?Y \<noteq> None" by simp
  have a6: "spec_priority ?X (Some ?S) > spec_priority ?Y (Some ?S)"
    by (simp add: spec_priority_def MIN_PRIORITY_def)
  have a7: "page_url ?X \<noteq> page_url ?Y" by simp
  have a8: "page_url ?Y \<notin> snd ` set (hq_queue ?q)" by simp
  have d: "quality_drain
        \<lparr>qf_queue = HeapQ \<lparr>hq_queue = [(- 1, ''S''), (- 0.9, ''X''), (50, ''Y'')]\<rparr>,
         qf_oracle = True, no_priority_pages = 1, priority_pages = 2, no_father_pages = 1\<rparr>
       = [''S'', ''X'', ''Y'']"
    by (simp add: quality_drain.simps quality_pop_def heap_enqueued_def heap_get_def
        heappop_def siftup_def siftup_loop.simps smaller_child_def siftdown_def
        siftdown_loop.simps)
  note t = quality_heap_pops_higher_priority_first [OF a1 a2 a3 a4 a5 a6 a7]
  from t obtain fm1 fm2 where
    h1: "quality_add ?fm ?X (Some ?S) = Inr fm1" and
    h2: "quality_add fm1 ?Y (Some ?S) = Inr fm2" and
    h4: "\<exists>xs ys zs. quality_drain fm2 = xs @ page_url ?X # ys @ page_url ?Y # zs
          \<and> (page_url ?Y \<notin> snd ` set (hq_queue ?q)
               \<longrightarrow> page_url ?Y \<notin> set xs \<and> page_url ?Y \<notin> set ys)"
    by blast
  from h4 a8 obtain xs ys zs where
    h5: "quality_drain fm2 = xs @ page_url ?X # ys @ page_url ?Y # zs"
      "page_url ?Y \<notin> set xs" "page_url ?Y \<notin> set ys"
    by blast
  have h4': "\<exists>xs ys zs. quality_drain fm2 = xs @ ''X'' # ys @ ''Y'' # zs
          \<and> ''Y'' \<notin> set xs \<and> ''Y'' \<notin> set ys"
    using h5 by auto
  show ?thesis
    using h1 h2 h4' d by blast
qed

section \<open>The download log does not always read back\<close>

text \<open>
  C7. Reading the chunk files back from suffix 1 does not always return the sequence
  that was written. With \<open>save_every_n_pages = 3\<close> and three downloaded pages, the crawl
  loop never checkpoints and the final flush writes all three docnos to suffix
  \<open>3 div 3 + 1 = 2\<close>: the reader finds no suffix 1 and returns nothing. With six
  downloaded pages, the crawl loop checkpoints once, when the fourth docno is in the buffer, into suffix
  \<open>4 div 3 = 1\<close>; the final flush of the remaining two docnos computes suffix
  \<open>6 div 3 + 1 = 3\<close>. No file has suffix 2, so the reader returns the first four docnos
  only. At the level of the fetcher alone, a checkpoint taken before
  \<open>SAVE_EVERY_N_PAGES\<close> docnos are stored goes to suffix 0, which the reader never opens.
\<close>

theorem download_log_round_trip_loses_records:
  "crawl 3 3 [10, 11, 12]
     = Inr \<lparr>downloaded = [10, 11, 12], num_stored = 0,
            chunk_files = [(2, [10, 11, 12])]\<rparr>
   \<and> load_downloaded_list [(2, [10, 11, 12])] None = []
   \<and> crawl 3 3 [10, 11, 12, 13, 14, 15]
     = Inr \<lparr>downloaded = [14, 15], num_stored = 4,
            chunk_files = [(3, [14, 15]), (1, [10, 11, 12, 13])]\<rparr>
   \<and> load_downloaded_list [(3, [14, 15]), (1, [10, 11, 12, 13])] None = [10, 11, 12, 13]
   \<and> load_downloaded_list [(3, [14, 15]), (1, [10, 11, 12, 13])] None
       \<noteq> [10, 11, 12, 13, 14, 15]
   \<and> checkpoint 3 (store fetcher_init 10)
       = Inr \<lparr>downloaded = [], num_stored = 1, chunk_files = [(0, [10])]\<rparr>
   \<and> load_downloaded_list [(0, [10])] None = []"
proof -
  have c0: "crawl 3 3 [10, 11, 12]
     = Inr \<lparr>downloaded = [10, 11, 12], num_stored = 0,
            chunk_files = [(2, [10, 11, 12])]\<rparr>"
    by (simp add: crawl_def fetcher_init_def store_def num_dowloaded_def checkpoint_def
        write_downloads_to_file_def Let_def)
  have l0: "load_downloaded_list [(2, [10, 11, 12])] None = []"
    by (simp add: load_downloaded_list_def load_loop.simps)
  have c: "crawl 3 3 [10, 11, 12, 13, 14, 15]
     = Inr \<lparr>downloaded = [14, 15], num_stored = 4,
            chunk_files = [(3, [14, 15]), (1, [10, 11, 12, 13])]\<rparr>"
    by (simp add: crawl_def fetcher_init_def store_def num_dowloaded_def checkpoint_def
        write_downloads_to_file_def Let_def)
  have l: "load_downloaded_list [(3, [14, 15]), (1, [10, 11, 12, 13])] None
      = [10, 11, 12, 13]"
    by (simp add: load_downloaded_list_def load_loop.simps)
  have k: "checkpoint 3 (store fetcher_init 10)
       = Inr \<lparr>downloaded = [], num_stored = 1, chunk_files = [(0, [10])]\<rparr>"
    by (simp add: fetcher_init_def store_def checkpoint_def write_downloads_to_file_def)
  have e: "load_downloaded_list [(0, [10])] None = []"
    by (simp add: load_downloaded_list_def load_loop.simps)
  show ?thesis using c0 l0 c l k e by simp
qed

section \<open>Failures of the shard reader\<close>





end
